theory Spec2Isabelle
  imports Complex_Main
begin

section \<open>JavaScript numbers\<close>

text \<open>
  The public routes of the worker compute with TypeScript \<open>number\<close>s. A \<open>number\<close> is
  modelled as a finite value or one of the three special values of IEEE 754. Finite values
  are rationals and arithmetic on them is exact; this agrees with double precision whenever
  operands and result are representable, in particular for all integer timestamps and
  second counts below \<open>2^53\<close>. The two signed zeros are identified. The comparison
  operators are false as soon as one side is \<open>NaN\<close>, and \<open>Math.max\<close>/\<open>Math.min\<close> return
  \<open>NaN\<close> as soon as one argument is \<open>NaN\<close>.
\<close>

datatype number = Fin rat | PosInf | NegInf | NaN

fun Number_isFinite :: "number \<Rightarrow> bool" where
  "Number_isFinite (Fin _) = True"
| "Number_isFinite _ = False"

fun num_neg :: "number \<Rightarrow> number" where
  "num_neg (Fin a) = Fin (- a)"
| "num_neg PosInf = NegInf"
| "num_neg NegInf = PosInf"
| "num_neg NaN = NaN"

fun num_add :: "number \<Rightarrow> number \<Rightarrow> number" where
  "num_add NaN _ = NaN"
| "num_add _ NaN = NaN"
| "num_add (Fin a) (Fin b) = Fin (a + b)"
| "num_add PosInf NegInf = NaN"
| "num_add NegInf PosInf = NaN"
| "num_add PosInf _ = PosInf"
| "num_add NegInf _ = NegInf"
| "num_add _ PosInf = PosInf"
| "num_add _ NegInf = NegInf"

definition num_sub :: "number \<Rightarrow> number \<Rightarrow> number" where
  "num_sub a b = num_add a (num_neg b)"

fun num_lt :: "number \<Rightarrow> number \<Rightarrow> bool" where
  "num_lt NaN _ = False"
| "num_lt _ NaN = False"
| "num_lt (Fin a) (Fin b) = (a < b)"
| "num_lt _ NegInf = False"
| "num_lt NegInf _ = True"
| "num_lt PosInf _ = False"
| "num_lt _ PosInf = True"

definition num_le :: "number \<Rightarrow> number \<Rightarrow> bool" where
  "num_le a b = (a \<noteq> NaN \<and> b \<noteq> NaN \<and> \<not> num_lt b a)"

definition num_gt :: "number \<Rightarrow> number \<Rightarrow> bool" where
  "num_gt a b = num_lt b a"

definition num_ge :: "number \<Rightarrow> number \<Rightarrow> bool" where
  "num_ge a b = num_le b a"

text \<open>Strict equality \<open>===\<close> on numbers: \<open>NaN\<close> is not equal to itself.\<close>

definition num_eq :: "number \<Rightarrow> number \<Rightarrow> bool" where
  "num_eq a b = (a \<noteq> NaN \<and> a = b)"

definition Math_max :: "number \<Rightarrow> number \<Rightarrow> number" where
  "Math_max a b = (if a = NaN \<or> b = NaN then NaN else if num_lt a b then b else a)"

definition Math_min :: "number \<Rightarrow> number \<Rightarrow> number" where
  "Math_min a b = (if a = NaN \<or> b = NaN then NaN else if num_lt b a then b else a)"

fun Math_floor :: "number \<Rightarrow> number" where
  "Math_floor (Fin a) = Fin (of_int \<lfloor>a\<rfloor>)"
| "Math_floor x = x"

fun num_mul :: "number \<Rightarrow> number \<Rightarrow> number" where
  "num_mul NaN _ = NaN"
| "num_mul _ NaN = NaN"
| "num_mul (Fin a) (Fin b) = Fin (a * b)"
| "num_mul (Fin a) PosInf = (if a = 0 then NaN else if 0 < a then PosInf else NegInf)"
| "num_mul (Fin a) NegInf = (if a = 0 then NaN else if 0 < a then NegInf else PosInf)"
| "num_mul PosInf (Fin b) = (if b = 0 then NaN else if 0 < b then PosInf else NegInf)"
| "num_mul NegInf (Fin b) = (if b = 0 then NaN else if 0 < b then NegInf else PosInf)"
| "num_mul PosInf PosInf = PosInf"
| "num_mul PosInf NegInf = NegInf"
| "num_mul NegInf PosInf = NegInf"
| "num_mul NegInf NegInf = PosInf"

text \<open>
  Division. With the signed zeros identified, a finite non-zero value divided by zero is
  taken as divided by \<open>+0\<close>; the routes only divide by constants and by a \<open>total_sec\<close> that
  was tested against zero.
\<close>

fun num_div :: "number \<Rightarrow> number \<Rightarrow> number" where
  "num_div NaN _ = NaN"
| "num_div _ NaN = NaN"
| "num_div (Fin a) (Fin b) =
     (if b = 0 then (if a = 0 then NaN else if 0 < a then PosInf else NegInf)
      else Fin (a / b))"
| "num_div (Fin a) _ = Fin 0"
| "num_div PosInf (Fin b) = (if 0 \<le> b then PosInf else NegInf)"
| "num_div NegInf (Fin b) = (if 0 \<le> b then NegInf else PosInf)"
| "num_div _ _ = NaN"

text \<open>Integer columns read from the datastore enter the computation as finite numbers.\<close>

definition num_of_int :: "int \<Rightarrow> number" where
  "num_of_int i = Fin (of_int i)"

section \<open>Interval algebra\<close>

text \<open>
  \<^verbatim>\<open>type Interval = { start: number; end: number }\<close>. The field \<open>end\<close> is written
  \<open>end'\<close>.
\<close>

record Interval =
  start :: number
  end' :: number

text \<open>
  \<^verbatim>\<open>[...intervals].sort((a, b) => a.start - b.start)\<close>: a stable sort under the
  comparator; a comparator result of \<open>NaN\<close> counts as zero, as ECMAScript prescribes. The
  model is the stable insertion sort. For a consistent comparator (all \<open>start\<close> values
  finite) every stable sort returns this list; for an inconsistent one the language leaves
  the order to the implementation and no theorem below speaks about it.
\<close>

fun insert_by_start :: "Interval \<Rightarrow> Interval list \<Rightarrow> Interval list" where
  "insert_by_start x [] = [x]"
| "insert_by_start x (y # ys) =
     (if num_gt (num_sub (start x) (start y)) (Fin 0) then y # insert_by_start x ys
      else x # y # ys)"

definition sort_by_start :: "Interval list \<Rightarrow> Interval list" where
  "sort_by_start intervals = foldr insert_by_start intervals []"

text \<open>
  One iteration of the loop of \<open>mergeIntervals\<close>: \<open>prev\<close> is the last element of
  \<open>merged\<close>; it is extended in place when \<open>cur\<close> starts at or before its end, and \<open>cur\<close> is
  pushed otherwise (also when \<open>merged\<close> is empty).
\<close>

definition merge_step :: "Interval list \<Rightarrow> Interval \<Rightarrow> Interval list" where
  "merge_step merged cur =
     (if merged = [] then merged @ [\<lparr>start = start cur, end' = end' cur\<rparr>]
      else let prev = last merged in
        if num_le (start cur) (end' prev)
        then butlast merged @ [prev\<lparr>end' := Math_max (end' prev) (end' cur)\<rparr>]
        else merged @ [\<lparr>start = start cur, end' = end' cur\<rparr>])"

definition mergeIntervals :: "Interval list \<Rightarrow> Interval list" where
  "mergeIntervals intervals =
     (if length intervals = 0 then []
      else case sort_by_start intervals of
        [] \<Rightarrow> []
      | first # rest \<Rightarrow> foldl merge_step [\<lparr>start = start first, end' = end' first\<rparr>] rest)"

definition sumIntervals :: "Interval list \<Rightarrow> number" where
  "sumIntervals intervals =
     foldl (\<lambda>acc it. num_add acc (Math_max (Fin 0) (num_sub (end' it) (start it))))
       (Fin 0) intervals"

text \<open>
  The two-pointer sweep of \<open>overlapSeconds\<close>. The pointers \<open>i\<close> and \<open>j\<close> are represented by
  the remaining suffixes \<open>a.slice(i)\<close> and \<open>b.slice(j)\<close>; the loop ends when one of them is
  empty.
\<close>

fun overlap_sweep :: "Interval list \<Rightarrow> Interval list \<Rightarrow> number \<Rightarrow> number" where
  "overlap_sweep [] b acc = acc"
| "overlap_sweep (x # a) [] acc = acc"
| "overlap_sweep (x # a) (y # b) acc =
     (let s = Math_max (start x) (start y);
          e = Math_min (end' x) (end' y);
          acc1 = (if num_gt e s then num_add acc (num_sub e s) else acc)
      in if num_le (end' x) (end' y) then overlap_sweep a (y # b) acc1
         else overlap_sweep (x # a) b acc1)"

definition overlapSeconds :: "Interval list \<Rightarrow> Interval list \<Rightarrow> number" where
  "overlapSeconds a b = overlap_sweep a b (Fin 0)"

definition ensureInterval :: "Interval \<Rightarrow> Interval option" where
  "ensureInterval interval =
     (if \<not> Number_isFinite (start interval) \<or> \<not> Number_isFinite (end' interval) then None
      else if num_le (end' interval) (start interval) then None
      else Some interval)"

definition pushMergedInterval :: "Interval list \<Rightarrow> Interval \<Rightarrow> Interval list" where
  "pushMergedInterval intervals nxt =
     (if intervals \<noteq> [] \<and> num_le (start nxt) (end' (last intervals))
      then butlast intervals @
             [(last intervals)\<lparr>end' := Math_max (end' (last intervals)) (end' nxt)\<rparr>]
      else intervals @ [\<lparr>start = start nxt, end' = end' nxt\<rparr>])"

section \<open>Observation gap classifier\<close>

record Check =
  checked_at :: number
  status :: string

text \<open>
  \<open>buildUnknownIntervals\<close> keeps three mutable variables, \<open>lastCheck\<close>, \<open>cursor\<close> and the
  array \<open>unknown\<close>, which its two local functions read and write. They are passed
  explicitly here; in the record of the loop state the array is the field \<open>unknown_arr\<close>
  (\<open>unknown\<close> is a field of the counts of \<open>GET /status\<close>).
\<close>

definition addUnknown :: "Interval list \<Rightarrow> number \<Rightarrow> number \<Rightarrow> Interval list" where
  "addUnknown unknown from' to =
     (case ensureInterval \<lparr>start = from', end' = to\<rparr> of
        None \<Rightarrow> unknown
      | Some it \<Rightarrow> pushMergedInterval unknown it)"

definition processSegment ::
  "number \<Rightarrow> Check option \<Rightarrow> Interval list \<Rightarrow> number \<Rightarrow> number \<Rightarrow> Interval list" where
  "processSegment intervalSec lastCheck unknown segStart segEnd =
     (if num_le segEnd segStart then unknown
      else case lastCheck of
        None \<Rightarrow> addUnknown unknown segStart segEnd
      | Some lc \<Rightarrow>
          let validUntil = num_add (checked_at lc) intervalSec in
          if num_ge segStart validUntil then addUnknown unknown segStart segEnd
          else
            let coveredEnd = Math_min segEnd validUntil;
                unknown1 = (if status lc = ''unknown''
                            then addUnknown unknown segStart coveredEnd else unknown)
            in if num_lt coveredEnd segEnd then addUnknown unknown1 coveredEnd segEnd
               else unknown1)"

record ScanState =
  lastCheck :: "Check option"
  cursor :: number
  unknown_arr :: "Interval list"

text \<open>The \<open>for (const check of checks)\<close> loop, with its \<open>continue\<close> and its \<open>break\<close>.\<close>

fun scanChecks :: "number \<Rightarrow> number \<Rightarrow> number \<Rightarrow> Check list \<Rightarrow> ScanState \<Rightarrow> ScanState" where
  "scanChecks rangeStart rangeEnd intervalSec [] st = st"
| "scanChecks rangeStart rangeEnd intervalSec (check # checks) st =
     (if num_lt (checked_at check) rangeStart
      then scanChecks rangeStart rangeEnd intervalSec checks (st\<lparr>lastCheck := Some check\<rparr>)
      else if num_ge (checked_at check) rangeEnd then st
      else scanChecks rangeStart rangeEnd intervalSec checks
             \<lparr>lastCheck = Some check,
              cursor = checked_at check,
              unknown_arr = processSegment intervalSec (lastCheck st) (unknown_arr st)
                          (cursor st) (checked_at check)\<rparr>)"

definition buildUnknownIntervals ::
  "number \<Rightarrow> number \<Rightarrow> number \<Rightarrow> Check list \<Rightarrow> Interval list" where
  "buildUnknownIntervals rangeStart rangeEnd intervalSec checks =
     (if num_le rangeEnd rangeStart then []
      else if \<not> Number_isFinite intervalSec \<or> num_le intervalSec (Fin 0)
      then [\<lparr>start = rangeStart, end' = rangeEnd\<rparr>]
      else
        let st = scanChecks rangeStart rangeEnd intervalSec checks
                   \<lparr>lastCheck = None, cursor = rangeStart, unknown_arr = []\<rparr>
        in processSegment intervalSec (lastCheck st) (unknown_arr st) (cursor st) rangeEnd)"

section \<open>Status values\<close>

text \<open>
  \<open>toMonitorStatus\<close> returns the closed union \<open>'up' | 'down' | 'maintenance' | 'paused' |
  'unknown'\<close>, which indexes the \<open>counts\<close> object; it is a datatype. \<open>toCheckStatus\<close>
  returns a string that is handed on to \<open>buildUnknownIntervals\<close>, whose parameter is typed
  \<open>string\<close>; it stays a string. The argument \<open>null\<close> is \<open>None\<close>.
\<close>

datatype MonitorStatus = Up | Down | Maintenance | Paused | Unknown

definition toMonitorStatus :: "string option \<Rightarrow> MonitorStatus" where
  "toMonitorStatus v =
     (if v = Some ''up'' then Up
      else if v = Some ''down'' then Down
      else if v = Some ''maintenance'' then Maintenance
      else if v = Some ''paused'' then Paused
      else if v = Some ''unknown'' then Unknown
      else Unknown)"

definition toCheckStatus :: "string option \<Rightarrow> string" where
  "toCheckStatus v =
     (if v = Some ''up'' then ''up''
      else if v = Some ''down'' then ''down''
      else if v = Some ''maintenance'' then ''maintenance''
      else if v = Some ''unknown'' then ''unknown''
      else ''unknown'')"

section \<open>Fleet status: \<open>GET /status\<close>\<close>

text \<open>
  The rows of the two queries are inputs of the handler, as is the clock
  (\<open>Date.now()\<close>, in milliseconds). Columns of the datastore are integers or \<open>NULL\<close>. Fields
  of the rows carry the prefix \<open>row_\<close> or \<open>hb_\<close>, fields of the response the prefix
  \<open>mon_\<close> or \<open>beat_\<close>, since a field name can be declared once.
\<close>

record PublicStatusMonitorRow =
  row_id :: int
  row_name :: string
  row_type :: string
  row_interval_sec :: int
  row_state_status :: "string option"
  row_last_checked_at :: "int option"
  row_last_latency_ms :: "int option"

record PublicHeartbeatRow =
  hb_monitor_id :: int
  hb_checked_at :: int
  hb_status :: string
  hb_latency_ms :: "int option"

record Heartbeat =
  beat_checked_at :: int
  beat_status :: string
  beat_latency_ms :: "int option"

record StatusMonitor =
  mon_id :: int
  mon_name :: string
  mon_type :: string
  mon_status :: MonitorStatus
  is_stale :: bool
  mon_last_checked_at :: "int option"
  mon_last_latency_ms :: "int option"
  heartbeats :: "Heartbeat list"

text \<open>
  The callback of \<open>(results ?? []).map(...)\<close>. The freshness test is computed exactly
  here; the code computes it in double precision, which gives the same result as long as
  the operands and \<open>now - last_checked_at\<close> and \<open>interval_sec * 2\<close> are integers of
  magnitude at most \<open>2^53\<close>.
\<close>

definition monitor_entry :: "number \<Rightarrow> PublicStatusMonitorRow \<Rightarrow> StatusMonitor" where
  "monitor_entry now r =
     (let stateStatus = toMonitorStatus (row_state_status r);
          isStale =
            (if stateStatus = Paused \<or> stateStatus = Maintenance then False
             else case row_last_checked_at r of
               None \<Rightarrow> True
             | Some t \<Rightarrow> num_gt (num_sub now (num_of_int t))
                                (num_mul (num_of_int (row_interval_sec r)) (Fin 2)));
          status = (if isStale then Unknown else stateStatus)
      in \<lparr>mon_id = row_id r,
          mon_name = row_name r,
          mon_type = row_type r,
          mon_status = status,
          is_stale = isStale,
          mon_last_checked_at = row_last_checked_at r,
          mon_last_latency_ms = (if isStale then None else row_last_latency_ms r),
          heartbeats = []\<rparr>)"

text \<open>
  \<^verbatim>\<open>const counts = { up: 0, down: 0, maintenance: 0, paused: 0, unknown: 0 }\<close>. The
  counters start at zero and are only incremented; they are natural numbers.
\<close>

record Counts =
  up :: nat
  down :: nat
  maintenance :: nat
  paused :: nat
  unknown :: nat

text \<open>\<^verbatim>\<open>counts[m.status]++\<close>\<close>

fun count_status :: "Counts \<Rightarrow> MonitorStatus \<Rightarrow> Counts" where
  "count_status counts Up = counts\<lparr>up := up counts + 1\<rparr>"
| "count_status counts Down = counts\<lparr>down := down counts + 1\<rparr>"
| "count_status counts Maintenance = counts\<lparr>maintenance := maintenance counts + 1\<rparr>"
| "count_status counts Paused = counts\<lparr>paused := paused counts + 1\<rparr>"
| "count_status counts Unknown = counts\<lparr>unknown := unknown counts + 1\<rparr>"

definition tally :: "StatusMonitor list \<Rightarrow> Counts" where
  "tally monitorsList =
     foldl (\<lambda>counts m. count_status counts (mon_status m))
       \<lparr>up = 0, down = 0, maintenance = 0, paused = 0, unknown = 0\<rparr> monitorsList"

definition overall_status_of :: "Counts \<Rightarrow> MonitorStatus" where
  "overall_status_of counts =
     (if down counts > 0 then Down
      else if unknown counts > 0 then Unknown
      else if maintenance counts > 0 then Maintenance
      else if up counts > 0 then Up
      else if paused counts > 0 then Paused
      else Unknown)"

text \<open>
  The \<open>byMonitor\<close> map of the heartbeat rows, and the chronological heartbeats of one
  monitor. \<open>rows.reverse()\<close> reverses the stored array in place; the ids of the rows of
  \<open>monitors\<close> are distinct, so every array is reversed once.
\<close>

definition group_heartbeats :: "PublicHeartbeatRow list \<Rightarrow> (int \<rightharpoonup> Heartbeat list)" where
  "group_heartbeats heartbeatRows =
     foldl (\<lambda>byMonitor r.
              let existing = (case byMonitor (hb_monitor_id r) of None \<Rightarrow> [] | Some e \<Rightarrow> e)
              in byMonitor(hb_monitor_id r \<mapsto>
                   existing @ [\<lparr>beat_checked_at = hb_checked_at r,
                                beat_status = toCheckStatus (Some (hb_status r)),
                                beat_latency_ms = hb_latency_ms r\<rparr>]))
       Map.empty heartbeatRows"

definition attach_heartbeats ::
  "(int \<rightharpoonup> Heartbeat list) \<Rightarrow> StatusMonitor list \<Rightarrow> StatusMonitor list" where
  "attach_heartbeats byMonitor monitorsList =
     map (\<lambda>m. m\<lparr>heartbeats :=
                  rev (case byMonitor (mon_id m) of None \<Rightarrow> [] | Some rows \<Rightarrow> rows)\<rparr>)
       monitorsList"

record StatusResponse =
  generated_at :: number
  overall_status :: MonitorStatus
  summary :: Counts
  monitors :: "StatusMonitor list"

text \<open>
  The handler. \<open>date_now\<close> is \<open>Date.now()\<close>; \<open>results\<close> is the result of the query on
  \<open>monitors\<close> joined with \<open>monitor_state\<close> (\<open>None\<close> for \<open>undefined\<close>); \<open>heartbeatRows\<close> is
  the result of the heartbeat query, which is only issued and read when there is a monitor.
\<close>

definition status_handler ::
  "int \<Rightarrow> PublicStatusMonitorRow list option \<Rightarrow> PublicHeartbeatRow list option
     \<Rightarrow> StatusResponse" where
  "status_handler date_now results heartbeatRows =
     (let now = Math_floor (num_div (num_of_int date_now) (Fin 1000));
          monitorsList = map (monitor_entry now) (case results of None \<Rightarrow> [] | Some rs \<Rightarrow> rs);
          counts = tally monitorsList;
          ids = map mon_id monitorsList;
          monitorsList1 =
            (if length ids > 0
             then attach_heartbeats
                    (group_heartbeats (case heartbeatRows of None \<Rightarrow> [] | Some hs \<Rightarrow> hs))
                    monitorsList
             else monitorsList)
      in \<lparr>generated_at = now,
          overall_status = overall_status_of counts,
          summary = counts,
          monitors = monitorsList1\<rparr>)"

section \<open>Uptime: \<open>GET /monitors/:id/uptime\<close>\<close>

datatype UptimeRange = R24h | R7d | R30d

fun rangeToSeconds :: "UptimeRange \<Rightarrow> number" where
  "rangeToSeconds R24h = num_mul (num_mul (Fin 24) (Fin 60)) (Fin 60)"
| "rangeToSeconds R7d = num_mul (num_mul (num_mul (Fin 7) (Fin 24)) (Fin 60)) (Fin 60)"
| "rangeToSeconds R30d = num_mul (num_mul (num_mul (Fin 30) (Fin 24)) (Fin 60)) (Fin 60)"

text \<open>
  The two ways the handler fails: a parameter that the schema rejects (status 400) and
  \<^verbatim>\<open>new AppError(404, 'NOT_FOUND', 'Monitor not found')\<close>.
\<close>

datatype error = ValidationError | NOT_FOUND

text \<open>
  \<^verbatim>\<open>z.coerce.number().int().positive()\<close> on the coerced path parameter, and
  \<^verbatim>\<open>uptimeRangeSchema.optional().default('24h')\<close> on the query parameter.
\<close>

definition parse_id :: "number \<Rightarrow> error + number" where
  "parse_id v =
     (case v of
        Fin a \<Rightarrow> (if a \<in> \<int> \<and> 0 < a then Inr v else Inl ValidationError)
      | _ \<Rightarrow> Inl ValidationError)"

definition parse_uptime_range :: "string option \<Rightarrow> error + UptimeRange" where
  "parse_uptime_range q =
     (case q of
        None \<Rightarrow> Inr R24h
      | Some s \<Rightarrow>
          (if s = ''24h'' then Inr R24h
           else if s = ''7d'' then Inr R7d
           else if s = ''30d'' then Inr R30d
           else Inl ValidationError))"

record UptimeMonitorRow =
  umon_id :: int
  umon_name :: string
  interval_sec :: int
  created_at :: int

record OutageRow =
  started_at :: int
  ended_at :: "int option"

record CheckRow =
  row_checked_at :: int
  row_status :: string

record UptimeResponse =
  monitor_id :: int
  monitor_name :: string
  range' :: UptimeRange
  range_start_at :: number
  range_end_at :: number
  total_sec :: number
  downtime_sec :: number
  unknown_sec :: number
  uptime_sec :: number
  uptime_pct :: number

text \<open>
  The clamped outage intervals that are handed to \<open>mergeIntervals\<close>:
  \<^verbatim>\<open>(outageRows ?? []).map(...).filter((it) => it.end > it.start)\<close>.
\<close>

definition clamp_outages :: "number \<Rightarrow> number \<Rightarrow> OutageRow list \<Rightarrow> Interval list" where
  "clamp_outages rangeStart rangeEnd outageRows =
     filter (\<lambda>it. num_gt (end' it) (start it))
       (map (\<lambda>r. \<lparr>start = Math_max (num_of_int (started_at r)) rangeStart,
                   end' = Math_min (case ended_at r of None \<Rightarrow> rangeEnd
                                    | Some e \<Rightarrow> num_of_int e) rangeEnd\<rparr>)
          outageRows)"

text \<open>
  The handler from the computation of \<open>now\<close> to the response. \<open>monitor\<close> is the result of
  the lookup of the active monitor (\<open>None\<close> when there is none), \<open>outageRows\<close> and
  \<open>checkRows\<close> are the results of the two queries. \<open>checksStart\<close> is a parameter of the
  second query only. \<open>uptime_pct\<close> is the one value that need not be an integer; the model
  takes the quotient exactly.
\<close>

definition uptime_of ::
  "int \<Rightarrow> UptimeRange \<Rightarrow> UptimeMonitorRow \<Rightarrow> OutageRow list option \<Rightarrow> CheckRow list option
     \<Rightarrow> UptimeResponse" where
  "uptime_of date_now rng monitor outageRows checkRows =
     (let now = Math_floor (num_div (num_of_int date_now) (Fin 1000));
          rangeEnd = num_mul (Math_floor (num_div now (Fin 60))) (Fin 60);
          requestedRangeStart = num_sub rangeEnd (rangeToSeconds rng);
          rangeStart = Math_max requestedRangeStart (num_of_int (created_at monitor));
          total = Math_max (Fin 0) (num_sub rangeEnd rangeStart);
          downtimeIntervals =
            mergeIntervals (clamp_outages rangeStart rangeEnd
              (case outageRows of None \<Rightarrow> [] | Some rs \<Rightarrow> rs));
          downtime = sumIntervals downtimeIntervals;
          unknownIntervals =
            buildUnknownIntervals rangeStart rangeEnd (num_of_int (interval_sec monitor))
              (map (\<lambda>r. \<lparr>checked_at = num_of_int (row_checked_at r),
                          status = toCheckStatus (Some (row_status r))\<rparr>)
                 (case checkRows of None \<Rightarrow> [] | Some rs \<Rightarrow> rs));
          unknown_s = Math_max (Fin 0)
            (num_sub (sumIntervals unknownIntervals)
               (overlapSeconds unknownIntervals downtimeIntervals));
          unavailable = Math_min total (num_add downtime unknown_s);
          uptime = Math_max (Fin 0) (num_sub total unavailable);
          pct = (if num_eq total (Fin 0) then Fin 0
                 else num_mul (num_div uptime total) (Fin 100))
      in \<lparr>monitor_id = umon_id monitor,
          monitor_name = umon_name monitor,
          range' = rng,
          range_start_at = rangeStart,
          range_end_at = rangeEnd,
          total_sec = total,
          downtime_sec = downtime,
          unknown_sec = unknown_s,
          uptime_sec = uptime,
          uptime_pct = pct\<rparr>)"

definition uptime_handler ::
  "int \<Rightarrow> number \<Rightarrow> string option \<Rightarrow> UptimeMonitorRow option \<Rightarrow> OutageRow list option
     \<Rightarrow> CheckRow list option \<Rightarrow> error + UptimeResponse" where
  "uptime_handler date_now idParam rangeParam monitor outageRows checkRows =
     (case parse_id idParam of
        Inl e \<Rightarrow> Inl e
      | Inr ident \<Rightarrow>
          (case parse_uptime_range rangeParam of
             Inl e \<Rightarrow> Inl e
           | Inr rng \<Rightarrow>
               (case monitor of
                  None \<Rightarrow> Inl NOT_FOUND
                | Some m \<Rightarrow> Inr (uptime_of date_now rng m outageRows checkRows))))"

section \<open>Scenario data\<close>

text \<open>Scenario S5: a monitor recorded as down whose last check is 1000 seconds old.\<close>

definition row_S5 :: PublicStatusMonitorRow where
  "row_S5 = \<lparr>row_id = 1, row_name = ''api'', row_type = ''http'', row_interval_sec = 60,
     row_state_status = Some ''down'', row_last_checked_at = Some 9000,
     row_last_latency_ms = Some 35\<rparr>"

text \<open>Scenario S6: a paused monitor that was never checked.\<close>

definition row_S6 :: PublicStatusMonitorRow where
  "row_S6 = \<lparr>row_id = 2, row_name = ''batch'', row_type = ''tcp'', row_interval_sec = 60,
     row_state_status = Some ''paused'', row_last_checked_at = None,
     row_last_latency_ms = None\<rparr>"

text \<open>Four intervals, out of order and overlapping.\<close>

definition ivs_demo :: "Interval list" where
  "ivs_demo = [\<lparr>start = Fin 5, end' = Fin 8\<rparr>, \<lparr>start = Fin 1, end' = Fin 3\<rparr>,
               \<lparr>start = Fin 2, end' = Fin 6\<rparr>, \<lparr>start = Fin 10, end' = Fin 12\<rparr>]"

text \<open>Two merged sets whose first elements end at the same time.\<close>

definition set_a :: "Interval list" where
  "set_a = [\<lparr>start = Fin 0, end' = Fin 10\<rparr>, \<lparr>start = Fin 20, end' = Fin 30\<rparr>]"

definition set_b :: "Interval list" where
  "set_b = [\<lparr>start = Fin 5, end' = Fin 10\<rparr>, \<lparr>start = Fin 12, end' = Fin 25\<rparr>]"

text \<open>Three checks inside the range \<open>[1000, 1600)\<close>, the second with status \<open>unknown\<close>.\<close>

definition checks_demo :: "Check list" where
  "checks_demo = [\<lparr>checked_at = Fin 1000, status = ''up''\<rparr>,
                  \<lparr>checked_at = Fin 1200, status = ''unknown''\<rparr>,
                  \<lparr>checked_at = Fin 1300, status = ''up''\<rparr>]"

text \<open>
  A monitor created at \<open>89400\<close> and checked every 300 seconds, one closed outage of 300
  seconds and two checks; the clock is at \<open>90000\<close> seconds.
\<close>

definition monitor_demo :: UptimeMonitorRow where
  "monitor_demo = \<lparr>umon_id = 7, umon_name = ''api'', interval_sec = 300, created_at = 89400\<rparr>"

definition outages_demo :: "OutageRow list" where
  "outages_demo = [\<lparr>started_at = 89500, ended_at = Some 89800\<rparr>]"

definition checkrows_demo :: "CheckRow list" where
  "checkrows_demo = [\<lparr>row_checked_at = 89400, row_status = ''up''\<rparr>,
                     \<lparr>row_checked_at = 89700, row_status = ''up''\<rparr>]"

section \<open>Notions used in the statements and proofs\<close>

text \<open>The value of a finite number.\<close>

fun val :: "number \<Rightarrow> rat" where
  "val (Fin a) = a"
| "val _ = 0"

text \<open>An interval with finite endpoints.\<close>

definition fin_iv :: "Interval \<Rightarrow> bool" where
  "fin_iv it = (Number_isFinite (start it) \<and> Number_isFinite (end' it))"

text \<open>
  The shape of a result of \<open>mergeIntervals\<close>: ascending by \<open>start\<close>, and every element
  ends before every later element starts.
\<close>

definition sep :: "Interval list \<Rightarrow> bool" where
  "sep xs = sorted_wrt (\<lambda>a b. val (start a) \<le> val (start b) \<and> val (end' a) < val (start b)) xs"

text \<open>
  The length of the intersection of two intervals, and the sum of these lengths over all
  pairs of two lists.
\<close>

definition pair_ov :: "Interval \<Rightarrow> Interval \<Rightarrow> rat" where
  "pair_ov x y = max 0 (min (val (end' x)) (val (end' y)) - max (val (start x)) (val (start y)))"

definition total_ov :: "Interval list \<Rightarrow> Interval list \<Rightarrow> rat" where
  "total_ov a b = (\<Sum>x\<leftarrow>a. \<Sum>y\<leftarrow>b. pair_ov x y)"

text \<open>
  A list of intervals with finite endpoints in which every element ends at or before the
  start of every later element. Every merged set is of this kind: the results of
  \<open>mergeIntervals\<close> on finite input and of \<open>buildUnknownIntervals\<close> even keep a gap
  between consecutive elements.
\<close>

definition non_overlapping :: "Interval list \<Rightarrow> bool" where
  "non_overlapping xs =
     (list_all (\<lambda>x. Number_isFinite (start x) \<and> Number_isFinite (end' x)) xs \<and>
      sorted_wrt (\<lambda>a b. num_le (end' a) (start b)) xs)"

text \<open>
  An interval set inside \<open>[lo, hi]\<close>: finite endpoints, \<open>start < end\<close>, every element
  inside the bounds and ending before every later element starts.
\<close>

definition iset :: "rat \<Rightarrow> rat \<Rightarrow> Interval list \<Rightarrow> bool" where
  "iset lo hi xs =
     ((\<forall>x\<in>set xs. fin_iv x \<and> lo \<le> val (start x) \<and> val (start x) < val (end' x) \<and>
                   val (end' x) \<le> hi) \<and>
      sorted_wrt (\<lambda>a b. val (end' a) < val (start b)) xs)"

text \<open>The invariant of the loop over the checks.\<close>

definition scan_ok :: "rat \<Rightarrow> rat \<Rightarrow> ScanState \<Rightarrow> bool" where
  "scan_ok lo hi st =
     (iset lo hi (unknown_arr st) \<and> Number_isFinite (cursor st) \<and> lo \<le> val (cursor st) \<and>
      (lastCheck st = None \<or> (\<exists>c. lastCheck st = Some c \<and> Number_isFinite (checked_at c))))"

text \<open>A single interval inside \<open>[lo, hi]\<close>, and the summed length of a list.\<close>

definition bnd :: "rat \<Rightarrow> rat \<Rightarrow> Interval \<Rightarrow> bool" where
  "bnd lo hi x = (fin_iv x \<and> lo \<le> val (start x) \<and> val (start x) < val (end' x) \<and> val (end' x) \<le> hi)"

definition meas :: "Interval list \<Rightarrow> rat" where
  "meas xs = (\<Sum>x\<leftarrow>xs. val (end' x) - val (start x))"

section \<open>Evaluation rules for finite numbers\<close>

lemma num_sub_Fin [simp]: "num_sub (Fin a) (Fin b) = Fin (a - b)"
  by (simp add: num_sub_def)

lemma num_le_Fin [simp]: "num_le (Fin a) (Fin b) = (a \<le> b)"
  by (auto simp: num_le_def)

lemma num_gt_Fin [simp]: "num_gt (Fin a) (Fin b) = (b < a)"
  by (simp add: num_gt_def)

lemma num_ge_Fin [simp]: "num_ge (Fin a) (Fin b) = (b \<le> a)"
  by (simp add: num_ge_def)

lemma num_eq_Fin [simp]: "num_eq (Fin a) (Fin b) = (a = b)"
  by (simp add: num_eq_def)

lemma Math_max_Fin [simp]: "Math_max (Fin a) (Fin b) = Fin (max a b)"
  by (simp add: Math_max_def max_def)

lemma Math_min_Fin [simp]: "Math_min (Fin a) (Fin b) = Fin (min a b)"
  by (simp add: Math_min_def min_def)


lemma fin_le: "Number_isFinite a \<Longrightarrow> Number_isFinite b \<Longrightarrow> num_le a b = (val a \<le> val b)"
  by (cases a; cases b) simp_all

lemma fin_lt: "Number_isFinite a \<Longrightarrow> Number_isFinite b \<Longrightarrow> num_lt a b = (val a < val b)"
  by (cases a; cases b) simp_all

lemma fin_gt: "Number_isFinite a \<Longrightarrow> Number_isFinite b \<Longrightarrow> num_gt a b = (val b < val a)"
  by (cases a; cases b) simp_all

lemma fin_ge: "Number_isFinite a \<Longrightarrow> Number_isFinite b \<Longrightarrow> num_ge a b = (val b \<le> val a)"
  by (cases a; cases b) simp_all

lemma fin_sub: "Number_isFinite a \<Longrightarrow> Number_isFinite b \<Longrightarrow> num_sub a b = Fin (val a - val b)"
  by (cases a; cases b) simp_all

lemma fin_add: "Number_isFinite a \<Longrightarrow> Number_isFinite b \<Longrightarrow> num_add a b = Fin (val a + val b)"
  by (cases a; cases b) simp_all

lemma fin_max: "Number_isFinite a \<Longrightarrow> Number_isFinite b \<Longrightarrow> Math_max a b = Fin (max (val a) (val b))"
  by (cases a; cases b) simp_all

lemma fin_min: "Number_isFinite a \<Longrightarrow> Number_isFinite b \<Longrightarrow> Math_min a b = Fin (min (val a) (val b))"
  by (cases a; cases b) simp_all

lemmas fin_ops = fin_le fin_lt fin_gt fin_ge fin_sub fin_add fin_max fin_min

lemma interval_eta [simp]: "\<lparr>start = start (c :: Interval), end' = end' c\<rparr> = c"
  by simp


section \<open>Scenario S4: a verdict straddling the start of the range\<close>

text \<open>
  C2. Range \<open>[1000, 1600)\<close>, \<open>interval_sec = 60\<close>, one check at \<open>970\<close> with status \<open>up\<close>.
  The check is adopted as carry-over, its verdict is valid until \<open>970 + 60 = 1030\<close>, so the
  classifier returns the single unknown interval \<open>[1030, 1600)\<close>, whose length is \<open>570\<close>;
  the covered part \<open>[1000, 1030)\<close> is not reported.
\<close>

theorem straddling_verdict_S4:
  "buildUnknownIntervals (Fin 1000) (Fin 1600) (Fin 60) [\<lparr>checked_at = Fin 970, status = ''up''\<rparr>]
     = [\<lparr>start = Fin 1030, end' = Fin 1600\<rparr>]
   \<and> sumIntervals (buildUnknownIntervals (Fin 1000) (Fin 1600) (Fin 60)
          [\<lparr>checked_at = Fin 970, status = ''up''\<rparr>]) = Fin 570
   \<and> num_add (checked_at \<lparr>checked_at = Fin 970, status = ''up''\<rparr>) (Fin 60) = Fin 1030"
  by (simp add: buildUnknownIntervals_def processSegment_def addUnknown_def
      ensureInterval_def pushMergedInterval_def sumIntervals_def Let_def)

theorem straddling_verdict_S4_witness:
  "length (buildUnknownIntervals (Fin 1000) (Fin 1600) (Fin 60)
             [\<lparr>checked_at = Fin 970, status = ''up''\<rparr>]) = 1"
  using straddling_verdict_S4 by simp

section \<open>The guards of the gap classifier\<close>

lemma not_finite_cases:
  "(\<not> Number_isFinite x) = (x = NaN \<or> x = PosInf \<or> x = NegInf)"
  by (cases x) simp_all

lemma num_le_zero_cases:
  "num_le x (Fin 0) = (x = NegInf \<or> (\<exists>a. x = Fin a \<and> a \<le> 0))"
  by (cases x) (auto simp: num_le_def)

text \<open>
  C3, as the code has it. The classifier returns the empty list whenever
  \<open>rangeEnd \<le> rangeStart\<close>. Otherwise, whenever \<open>interval_sec\<close> is \<open>NaN\<close>, infinite, zero or
  negative, it returns the full range \<open>[rangeStart, rangeEnd)\<close> as a single unknown
  interval. The code tests \<open>Number.isFinite(intervalSec)\<close> and \<open>intervalSec <= 0\<close> only: a
  positive finite \<open>interval_sec\<close> that is not an integer is processed like any other
  positive interval.
\<close>

theorem gap_classifier_guards:
  "(num_le rangeEnd rangeStart \<longrightarrow>
      buildUnknownIntervals rangeStart rangeEnd intervalSec checks = []) \<and>
   (\<not> num_le rangeEnd rangeStart \<and>
    (intervalSec = NaN \<or> intervalSec = PosInf \<or> intervalSec = NegInf \<or>
     (\<exists>a. intervalSec = Fin a \<and> a \<le> 0)) \<longrightarrow>
      buildUnknownIntervals rangeStart rangeEnd intervalSec checks
        = [\<lparr>start = rangeStart, end' = rangeEnd\<rparr>])"
proof -
  have "(\<not> Number_isFinite intervalSec \<or> num_le intervalSec (Fin 0)) =
        (intervalSec = NaN \<or> intervalSec = PosInf \<or> intervalSec = NegInf \<or>
         (\<exists>a. intervalSec = Fin a \<and> a \<le> 0))"
    unfolding not_finite_cases num_le_zero_cases by blast
  then show ?thesis
    by (simp add: buildUnknownIntervals_def)
qed

theorem gap_classifier_guards_witness:
  "buildUnknownIntervals (Fin 1600) (Fin 1000) (Fin 60) [\<lparr>checked_at = Fin 970, status = ''up''\<rparr>] = [] \<and>
   buildUnknownIntervals (Fin 1000) (Fin 1600) (Fin (- 5)) [\<lparr>checked_at = Fin 970, status = ''up''\<rparr>]
     = [\<lparr>start = Fin 1000, end' = Fin 1600\<rparr>] \<and>
   buildUnknownIntervals (Fin 1000) (Fin 1600) NaN [\<lparr>checked_at = Fin 970, status = ''up''\<rparr>]
     = [\<lparr>start = Fin 1000, end' = Fin 1600\<rparr>]"
  using gap_classifier_guards [where rangeStart = "Fin 1600" and rangeEnd = "Fin 1000"
      and intervalSec = "Fin 60" and checks = "[\<lparr>checked_at = Fin 970, status = ''up''\<rparr>]"]
    gap_classifier_guards [where rangeStart = "Fin 1000" and rangeEnd = "Fin 1600"
      and intervalSec = "Fin (- 5)" and checks = "[\<lparr>checked_at = Fin 970, status = ''up''\<rparr>]"]
    gap_classifier_guards [where rangeStart = "Fin 1000" and rangeEnd = "Fin 1600"
      and intervalSec = NaN and checks = "[\<lparr>checked_at = Fin 970, status = ''up''\<rparr>]"]
  by simp

text \<open>
  With \<open>interval_sec = 1/2\<close>, which is finite and positive but not an integer, and one
  check at \<open>1000\<close> with status \<open>up\<close>, the classifier does not return the full range
  \<open>[1000, 1600)\<close>: the verdict covers \<open>[1000, 1000.5)\<close> and the result is
  \<open>[1000.5, 1600)\<close>.
\<close>

theorem fractional_interval_counterexample:
  "(1 / 2 :: rat) \<notin> \<int> \<and>
   buildUnknownIntervals (Fin 1000) (Fin 1600) (Fin (1 / 2)) [\<lparr>checked_at = Fin 1000, status = ''up''\<rparr>]
     = [\<lparr>start = Fin (2001 / 2), end' = Fin 1600\<rparr>] \<and>
   buildUnknownIntervals (Fin 1000) (Fin 1600) (Fin (1 / 2)) [\<lparr>checked_at = Fin 1000, status = ''up''\<rparr>]
     \<noteq> [\<lparr>start = Fin 1000, end' = Fin 1600\<rparr>]"
proof -
  have "(1 / 2 :: rat) \<notin> \<int>"
  proof
    assume "(1 / 2 :: rat) \<in> \<int>"
    then obtain k :: int where k: "(1 / 2 :: rat) = of_int k" by (auto elim: Ints_cases)
    then have "(1 :: rat) = of_int (2 * k)" by simp
    then have "(1 :: int) = 2 * k" using of_int_eq_iff [of 1 "2 * k", where ?'a = rat] by simp
    then show False by presburger
  qed
  moreover have "buildUnknownIntervals (Fin 1000) (Fin 1600) (Fin (1 / 2)) [\<lparr>checked_at = Fin 1000, status = ''up''\<rparr>]
     = [\<lparr>start = Fin (2001 / 2), end' = Fin 1600\<rparr>]"
    by (simp add: buildUnknownIntervals_def processSegment_def addUnknown_def
      ensureInterval_def pushMergedInterval_def Let_def)
  ultimately show ?thesis by simp
qed

section \<open>Merging\<close>

lemma insert_by_start_insort:
  "Number_isFinite (start x) \<Longrightarrow> \<forall>y\<in>set ys. Number_isFinite (start y) \<Longrightarrow>
   insert_by_start x ys = insort_key (\<lambda>it. val (start it)) x ys"
  by (induction ys) (auto simp: fin_ops)

lemma sort_by_start_sort_key:
  "\<forall>y\<in>set xs. Number_isFinite (start y) \<Longrightarrow>
   sort_by_start xs = sort_key (\<lambda>it. val (start it)) xs"
proof (induction xs)
  case Nil
  then show ?case by (simp add: sort_by_start_def)
next
  case (Cons x xs)
  then have ih: "sort_by_start xs = sort_key (\<lambda>it. val (start it)) xs" by simp
  have "sort_by_start (x # xs) = insert_by_start x (sort_by_start xs)"
    by (simp add: sort_by_start_def)
  also have "\<dots> = insort_key (\<lambda>it. val (start it)) x (sort_key (\<lambda>it. val (start it)) xs)"
    unfolding ih using Cons.prems by (intro insert_by_start_insort) simp_all
  finally show ?case by (simp add: sort_key_def)
qed

lemma merge_step_snoc:
  "merge_step (ms @ [p]) c =
     (if num_le (start c) (end' p) then ms @ [p\<lparr>end' := Math_max (end' p) (end' c)\<rparr>]
      else ms @ [p, c])"
  by (simp add: merge_step_def)

lemma sep_snoc:
  "sep (ms @ [p]) = (sep ms \<and> (\<forall>a\<in>set ms. val (start a) \<le> val (start p) \<and> val (end' a) < val (start p)))"
  by (simp add: sep_def sorted_wrt_append)

lemma merge_step_inv:
  assumes "acc \<noteq> []" "\<forall>a\<in>set acc. fin_iv a" "sep acc" "fin_iv c"
    "\<forall>a\<in>set acc. val (start a) \<le> val (start c)"
  shows "merge_step acc c \<noteq> [] \<and> (\<forall>a\<in>set (merge_step acc c). fin_iv a) \<and>
         sep (merge_step acc c) \<and> (\<forall>a\<in>set (merge_step acc c). val (start a) \<le> val (start c))"
proof -
  obtain ms p where acc: "acc = ms @ [p]"
    using assms(1) by (cases acc rule: rev_cases) auto
  have fp: "fin_iv p" and fms: "\<forall>a\<in>set ms. fin_iv a" using assms(2) acc by auto
  have sms: "sep ms" and pms: "\<forall>a\<in>set ms. val (start a) \<le> val (start p) \<and> val (end' a) < val (start p)"
    using assms(3) acc by (auto simp: sep_snoc)
  show ?thesis
  proof (cases "num_le (start c) (end' p)")
    case True
    then have r: "merge_step acc c = ms @ [p\<lparr>end' := Math_max (end' p) (end' c)\<rparr>]"
      by (simp add: acc merge_step_snoc)
    have "fin_iv (p\<lparr>end' := Math_max (end' p) (end' c)\<rparr>)"
      using fp assms(4) by (simp add: fin_iv_def fin_max)
    then show ?thesis
      unfolding r using fms sms pms assms(5) acc by (auto simp: sep_snoc)
  next
    case False
    then have r: "merge_step acc c = (ms @ [p]) @ [c]"
      by (simp add: acc merge_step_snoc)
    have lt: "val (end' p) < val (start c)"
      using False fp assms(4) by (simp add: fin_iv_def fin_le)
    have "\<forall>a\<in>set (ms @ [p]). val (start a) \<le> val (start c) \<and> val (end' a) < val (start c)"
      using pms lt assms(5) acc by fastforce
    then show ?thesis
      unfolding r using assms(2,3,4) acc by (subst sep_snoc) auto
  qed
qed

lemma foldl_merge_inv:
  "acc \<noteq> [] \<Longrightarrow> \<forall>a\<in>set acc. fin_iv a \<Longrightarrow> sep acc \<Longrightarrow> \<forall>c\<in>set rest. fin_iv c \<Longrightarrow>
   sorted (map (\<lambda>it. val (start it)) rest) \<Longrightarrow>
   \<forall>a\<in>set acc. \<forall>c\<in>set rest. val (start a) \<le> val (start c) \<Longrightarrow>
   sep (foldl merge_step acc rest) \<and> (\<forall>a\<in>set (foldl merge_step acc rest). fin_iv a)"
proof (induction rest arbitrary: acc)
  case Nil
  then show ?case by simp
next
  case (Cons c rest)
  have step: "merge_step acc c \<noteq> [] \<and> (\<forall>a\<in>set (merge_step acc c). fin_iv a) \<and>
         sep (merge_step acc c) \<and> (\<forall>a\<in>set (merge_step acc c). val (start a) \<le> val (start c))"
    using Cons.prems by (intro merge_step_inv) auto
  have "\<forall>a\<in>set (merge_step acc c). \<forall>d\<in>set rest. val (start a) \<le> val (start d)"
  proof (intro ballI)
    fix a d assume "a \<in> set (merge_step acc c)" "d \<in> set rest"
    then have "val (start a) \<le> val (start c)" "val (start c) \<le> val (start d)"
      using step Cons.prems(5) by auto
    then show "val (start a) \<le> val (start d)" by linarith
  qed
  then have "sep (foldl merge_step (merge_step acc c) rest) \<and>
        (\<forall>a\<in>set (foldl merge_step (merge_step acc c) rest). fin_iv a)"
    using step Cons.prems by (intro Cons.IH) auto
  then show ?case by simp
qed

lemma merge_sep:
  assumes "\<forall>x\<in>set xs. fin_iv x"
  shows "sep (mergeIntervals xs) \<and> (\<forall>a\<in>set (mergeIntervals xs). fin_iv a)"
proof (cases "sort_key (\<lambda>it. val (start it)) xs")
  case Nil
  then have "xs = []" by (metis length_0_conv length_sort)
  then show ?thesis by (simp add: mergeIntervals_def sep_def)
next
  case (Cons first rest)
  have so: "sort_by_start xs = first # rest"
    using assms Cons by (simp add: sort_by_start_sort_key fin_iv_def)
  have set_eq: "set (first # rest) = set xs"
    using Cons by (metis set_sort)
  have sorted: "sorted (map (\<lambda>it. val (start it)) (first # rest))"
    using Cons by (metis sorted_sort_key)
  have ne: "xs \<noteq> []" using set_eq by auto
  have m: "mergeIntervals xs = foldl merge_step [first] rest"
    using ne so by (simp add: mergeIntervals_def)
  have "sep (foldl merge_step [first] rest) \<and> (\<forall>a\<in>set (foldl merge_step [first] rest). fin_iv a)"
    using assms set_eq sorted by (intro foldl_merge_inv) (auto simp: sep_def)
  then show ?thesis by (simp add: m)
qed

lemma foldl_merge_id:
  "acc \<noteq> [] \<Longrightarrow> \<forall>a\<in>set (acc @ rest). fin_iv a \<Longrightarrow> sep (acc @ rest) \<Longrightarrow>
   foldl merge_step acc rest = acc @ rest"
proof (induction rest arbitrary: acc)
  case Nil
  then show ?case by simp
next
  case (Cons c rest)
  obtain ms p where acc: "acc = ms @ [p]"
    using Cons.prems(1) by (cases acc rule: rev_cases) auto
  have "val (end' p) < val (start c)"
    using Cons.prems(3) by (simp add: acc sep_def sorted_wrt_append)
  moreover have "fin_iv p" "fin_iv c" using Cons.prems(2) acc by auto
  ultimately have "\<not> num_le (start c) (end' p)"
    by (simp add: fin_iv_def fin_le)
  then have "merge_step acc c = acc @ [c]"
    by (simp add: acc merge_step_snoc)
  moreover have "foldl merge_step (acc @ [c]) rest = (acc @ [c]) @ rest"
    using Cons.prems by (intro Cons.IH) auto
  ultimately show ?case by simp
qed

lemma sep_sorted_start: "sep xs \<Longrightarrow> sorted (map (\<lambda>it. val (start it)) xs)"
  unfolding sep_def sorted_map by (erule sorted_wrt_mono_rel [rotated]) simp

lemma merge_fixed:
  assumes "\<forall>x\<in>set xs. fin_iv x" "sep xs"
  shows "mergeIntervals xs = xs"
proof (cases xs)
  case Nil
  then show ?thesis by (simp add: mergeIntervals_def)
next
  case (Cons first rest)
  have "sort_by_start xs = xs"
    using assms by (simp add: sort_by_start_sort_key fin_iv_def sort_key_id_if_sorted sep_sorted_start)
  then have "mergeIntervals xs = foldl merge_step [first] rest"
    by (simp add: mergeIntervals_def Cons)
  also have "\<dots> = [first] @ rest"
    using assms Cons by (intro foldl_merge_id) auto
  finally show ?thesis by (simp add: Cons)
qed

text \<open>
  C7. For every list \<open>xs\<close> of intervals with finite endpoints,
  \<open>merge(merge(xs)) = merge(xs)\<close>, and \<open>merge(xs)\<close> is ascending by \<open>start\<close> with every
  element starting strictly after the end of its predecessor. The input may hold
  overlapping, touching, unordered and empty intervals. (For a \<open>start\<close> that is not finite
  the order of the sort is left to the implementation.)
\<close>

theorem merge_idempotent:
  assumes "\<forall>it\<in>set xs. Number_isFinite (start it) \<and> Number_isFinite (end' it)"
  shows "mergeIntervals (mergeIntervals xs) = mergeIntervals xs \<and>
         (\<forall>i. Suc i < length (mergeIntervals xs) \<longrightarrow>
            num_le (start (mergeIntervals xs ! i)) (start (mergeIntervals xs ! Suc i)) \<and>
            num_lt (end' (mergeIntervals xs ! i)) (start (mergeIntervals xs ! Suc i)))"
proof -
  have fin: "\<forall>x\<in>set xs. fin_iv x" using assms by (simp add: fin_iv_def)
  have s: "sep (mergeIntervals xs)" and f: "\<forall>a\<in>set (mergeIntervals xs). fin_iv a"
    using merge_sep [OF fin] by auto
  have idem: "mergeIntervals (mergeIntervals xs) = mergeIntervals xs"
    using f s by (rule merge_fixed)
  have "num_le (start (mergeIntervals xs ! i)) (start (mergeIntervals xs ! Suc i)) \<and>
        num_lt (end' (mergeIntervals xs ! i)) (start (mergeIntervals xs ! Suc i))"
    if i: "Suc i < length (mergeIntervals xs)" for i
  proof -
    have "val (start (mergeIntervals xs ! i)) \<le> val (start (mergeIntervals xs ! Suc i)) \<and>
          val (end' (mergeIntervals xs ! i)) < val (start (mergeIntervals xs ! Suc i))"
      using s i unfolding sep_def sorted_wrt_iff_nth_less by simp
    moreover have "fin_iv (mergeIntervals xs ! i)" "fin_iv (mergeIntervals xs ! Suc i)"
      using f i by simp_all
    ultimately show ?thesis by (simp add: fin_iv_def fin_le fin_lt)
  qed
  then show ?thesis using idem by blast
qed

lemma merge_demo:
  "mergeIntervals ivs_demo = [\<lparr>start = Fin 1, end' = Fin 8\<rparr>, \<lparr>start = Fin 10, end' = Fin 12\<rparr>]"
  by (simp add: ivs_demo_def mergeIntervals_def sort_by_start_def merge_step_def)

theorem merge_idempotent_witness:
  "mergeIntervals (mergeIntervals ivs_demo) = mergeIntervals ivs_demo \<and>
   mergeIntervals ivs_demo = [\<lparr>start = Fin 1, end' = Fin 8\<rparr>, \<lparr>start = Fin 10, end' = Fin 12\<rparr>] \<and>
   num_lt (end' (mergeIntervals ivs_demo ! 0)) (start (mergeIntervals ivs_demo ! Suc 0))"
proof -
  have "\<forall>it\<in>set ivs_demo. Number_isFinite (start it) \<and> Number_isFinite (end' it)"
    by (simp add: ivs_demo_def)
  from merge_idempotent [OF this] show ?thesis
    by (simp add: merge_demo)
qed

section \<open>Overlap of two merged sets\<close>

lemma pair_ov_sym: "pair_ov x y = pair_ov y x"
  by (simp add: pair_ov_def min.commute max.commute)

lemma sum_list_swap:
  "(\<Sum>x\<leftarrow>xs. \<Sum>y\<leftarrow>ys. (f x y :: rat)) = (\<Sum>y\<leftarrow>ys. \<Sum>x\<leftarrow>xs. f x y)"
  by (induction xs) (simp_all add: sum_list_addf)

lemma total_ov_sym: "total_ov a b = total_ov b a"
  unfolding total_ov_def by (subst sum_list_swap) (simp add: pair_ov_sym)

lemma total_ov_Nil [simp]: "total_ov [] b = 0" "total_ov a [] = 0"
  by (simp_all add: total_ov_def)

lemma total_ov_Cons1: "total_ov (x # a) b = (\<Sum>y\<leftarrow>b. pair_ov x y) + total_ov a b"
  by (simp add: total_ov_def)

lemma total_ov_Cons2: "total_ov a (y # b) = (\<Sum>x\<leftarrow>a. pair_ov x y) + total_ov a b"
  by (simp add: total_ov_def sum_list_addf)

lemma non_overlapping_Cons:
  "non_overlapping (x # xs) =
     (fin_iv x \<and> non_overlapping xs \<and> (\<forall>y\<in>set xs. val (end' x) \<le> val (start y)))"
  by (auto simp: non_overlapping_def fin_iv_def list_all_iff fin_le)

lemma pair_ov_zero: "val (end' x) \<le> val (start y) \<Longrightarrow> pair_ov x y = 0"
  by (simp add: pair_ov_def)

lemma row_ov_zero:
  "\<forall>y\<in>set ys. val (end' x) \<le> val (start y) \<Longrightarrow> (\<Sum>y\<leftarrow>ys. pair_ov x y) = 0"
  by (induction ys) (simp_all add: pair_ov_zero)

lemma col_ov_zero:
  "\<forall>x\<in>set xs. val (end' y) \<le> val (start x) \<Longrightarrow> (\<Sum>x\<leftarrow>xs. pair_ov x y) = 0"
  by (induction xs) (simp_all add: pair_ov_zero pair_ov_sym [of _ y])

lemma sweep_acc:
  assumes "fin_iv x" "fin_iv y"
  shows "(let s = Math_max (start x) (start y); e = Math_min (end' x) (end' y)
          in if num_gt e s then num_add (Fin c) (num_sub e s) else Fin c) = Fin (c + pair_ov x y)"
  using assms by (auto simp: fin_iv_def fin_max fin_min pair_ov_def Let_def)

lemma sweep_total:
  "non_overlapping a \<Longrightarrow> non_overlapping b \<Longrightarrow>
   overlap_sweep a b (Fin c) = Fin (c + total_ov a b)"
proof (induction "length a + length b" arbitrary: a b c rule: less_induct)
  case less
  show ?case
  proof (cases a)
    case Nil
    then show ?thesis by simp
  next
    case a: (Cons x a')
    show ?thesis
    proof (cases b)
      case Nil
      then show ?thesis by (simp add: a)
    next
      case b: (Cons y b')
      have fx: "fin_iv x" and na: "non_overlapping a'"
        and xa: "\<forall>z\<in>set a'. val (end' x) \<le> val (start z)"
        using less.prems(1) by (simp_all add: a non_overlapping_Cons)
      have fy: "fin_iv y" and nb: "non_overlapping b'"
        and yb: "\<forall>z\<in>set b'. val (end' y) \<le> val (start z)"
        using less.prems(2) by (simp_all add: b non_overlapping_Cons)
      have le: "num_le (end' x) (end' y) = (val (end' x) \<le> val (end' y))"
        using fx fy by (simp add: fin_iv_def fin_le)
      show ?thesis
      proof (cases "val (end' x) \<le> val (end' y)")
        case True
        have "overlap_sweep a b (Fin c) = overlap_sweep a' (y # b') (Fin (c + pair_ov x y))"
          using True sweep_acc [OF fx fy, of c] by (simp add: a b le Let_def)
        also have "\<dots> = Fin (c + pair_ov x y + total_ov a' (y # b'))"
          using na less.prems(2) by (intro less.hyps) (simp_all add: a b)
        also have "(\<Sum>z\<leftarrow>b'. pair_ov x z) = 0"
          using yb True by (intro row_ov_zero) force
        then have "c + pair_ov x y + total_ov a' (y # b') = c + total_ov a b"
          by (simp add: a b total_ov_Cons1)
        finally show ?thesis .
      next
        case False
        have "overlap_sweep a b (Fin c) = overlap_sweep (x # a') b' (Fin (c + pair_ov x y))"
          using False sweep_acc [OF fx fy, of c] by (simp add: a b le Let_def)
        also have "\<dots> = Fin (c + pair_ov x y + total_ov (x # a') b')"
          using nb less.prems(1) by (intro less.hyps) (simp_all add: a b)
        also have "(\<Sum>z\<leftarrow>a'. pair_ov z y) = 0"
          using xa False by (intro col_ov_zero) force
        then have "c + pair_ov x y + total_ov (x # a') b' = c + total_ov a b"
          by (simp add: a b total_ov_Cons2)
        finally show ?thesis .
      qed
    qed
  qed
qed

text \<open>
  C8. For all merged sets \<open>a\<close> and \<open>b\<close> (finite endpoints, every element ending at or
  before the start of every later one), \<open>overlap(a, b) = overlap(b, a)\<close>, although the
  sweep advances the pointer into its first argument when the two current intervals end
  at the same time. Both sides are the sum of the lengths of the pairwise intersections.
\<close>

theorem overlap_symmetric:
  assumes "non_overlapping a" "non_overlapping b"
  shows "overlapSeconds a b = overlapSeconds b a"
  using sweep_total [OF assms, of 0] sweep_total [OF assms(2,1), of 0]
  by (simp add: overlapSeconds_def total_ov_sym [of a b])

theorem overlap_symmetric_witness:
  "non_overlapping set_a \<and> non_overlapping set_b \<and>
   overlapSeconds set_a set_b = overlapSeconds set_b set_a \<and>
   overlapSeconds set_a set_b = Fin 10"
proof -
  have a: "non_overlapping set_a" and b: "non_overlapping set_b"
    by (simp_all add: non_overlapping_def set_a_def set_b_def)
  have "overlapSeconds set_a set_b = Fin 10"
    by (simp add: overlapSeconds_def set_a_def set_b_def)
  with overlap_symmetric [OF a b] a b show ?thesis by simp
qed

section \<open>Intervals that are not proper\<close>




section \<open>The result of the gap classifier is an interval set inside the range\<close>

lemma iset_Nil [simp]: "iset lo hi []"
  by (simp add: iset_def)

lemma iset_snoc:
  "iset lo hi (xs @ [p]) =
     (iset lo hi xs \<and> fin_iv p \<and> lo \<le> val (start p) \<and> val (start p) < val (end' p) \<and>
      val (end' p) \<le> hi \<and> (\<forall>a\<in>set xs. val (end' a) < val (start p)))"
  by (auto simp: iset_def sorted_wrt_append)

lemma pushMerged_snoc:
  "pushMergedInterval (ms @ [p]) n =
     (if num_le (start n) (end' p) then ms @ [p\<lparr>end' := Math_max (end' p) (end' n)\<rparr>]
      else ms @ [p, n])"
  by (simp add: pushMergedInterval_def)

lemma pushMerged_iset:
  assumes "iset lo hi xs" "fin_iv n" "lo \<le> val (start n)" "val (start n) < val (end' n)"
    "val (end' n) \<le> hi"
  shows "iset lo hi (pushMergedInterval xs n)"
proof (cases xs rule: rev_cases)
  case Nil
  then show ?thesis
    using assms by (simp add: pushMergedInterval_def iset_def)
next
  case (snoc ms p)
  have p: "iset lo hi ms" "fin_iv p" "lo \<le> val (start p)" "val (start p) < val (end' p)"
    "val (end' p) \<le> hi" "\<forall>a\<in>set ms. val (end' a) < val (start p)"
    using assms(1) by (simp_all add: snoc iset_snoc)
  show ?thesis
  proof (cases "num_le (start n) (end' p)")
    case True
    have "iset lo hi (ms @ [p\<lparr>end' := Math_max (end' p) (end' n)\<rparr>])"
      unfolding iset_snoc using p assms(2-5) by (auto simp: fin_iv_def fin_max)
    then show ?thesis using True by (simp add: snoc pushMerged_snoc)
  next
    case False
    then have lt: "val (end' p) < val (start n)"
      using p(2) assms(2) by (simp add: fin_iv_def fin_le)
    have "\<forall>a\<in>set (ms @ [p]). val (end' a) < val (start n)"
      using p(4,6) lt by fastforce
    then have "iset lo hi ((ms @ [p]) @ [n])"
      using assms snoc by (subst iset_snoc) simp
    then show ?thesis using False by (simp add: snoc pushMerged_snoc)
  qed
qed

lemma addUnknown_iset:
  assumes "iset lo hi u" "lo \<le> f" "t \<le> hi"
  shows "iset lo hi (addUnknown u (Fin f) (Fin t))"
proof (cases "t \<le> f")
  case True
  then show ?thesis using assms(1) by (simp add: addUnknown_def ensureInterval_def)
next
  case False
  then have "addUnknown u (Fin f) (Fin t) = pushMergedInterval u \<lparr>start = Fin f, end' = Fin t\<rparr>"
    by (simp add: addUnknown_def ensureInterval_def)
  moreover have "iset lo hi (pushMergedInterval u \<lparr>start = Fin f, end' = Fin t\<rparr>)"
    using assms False by (intro pushMerged_iset) (simp_all add: fin_iv_def)
  ultimately show ?thesis by simp
qed

lemma processSegment_iset:
  assumes "iset lo hi u" "lo \<le> a" "b \<le> hi"
    and lc: "lc = None \<or> (\<exists>c. lc = Some c \<and> Number_isFinite (checked_at c))"
  shows "iset lo hi (processSegment (Fin iv) lc u (Fin a) (Fin b))"
proof (cases "b \<le> a")
  case True
  then show ?thesis using assms(1) by (simp add: processSegment_def)
next
  case ab: False
  show ?thesis
  proof (cases lc)
    case None
    then show ?thesis
      using ab assms by (simp add: processSegment_def addUnknown_iset)
  next
    case (Some c)
    then obtain t where t: "checked_at c = Fin t"
      using lc by (cases "checked_at c") auto
    show ?thesis
    proof (cases "t + iv \<le> a")
      case True
      then show ?thesis
        using ab assms Some t by (simp add: processSegment_def addUnknown_iset)
    next
      case False
      define u1 where "u1 = (if status c = ''unknown''
          then addUnknown u (Fin a) (Fin (min b (t + iv))) else u)"
      have u1: "iset lo hi u1"
        unfolding u1_def using assms(1-3) by (auto intro!: addUnknown_iset)
      have r: "processSegment (Fin iv) lc u (Fin a) (Fin b) =
          (if min b (t + iv) < b then addUnknown u1 (Fin (min b (t + iv))) (Fin b) else u1)"
        using ab False by (simp add: processSegment_def Some t Let_def u1_def)
      show ?thesis
        unfolding r using u1 False assms(2,3) by (auto intro!: addUnknown_iset)
    qed
  qed
qed

lemma scanChecks_ok:
  "scan_ok lo hi st \<Longrightarrow> \<forall>c\<in>set checks. Number_isFinite (checked_at c) \<Longrightarrow>
   scan_ok lo hi (scanChecks (Fin lo) (Fin hi) (Fin iv) checks st)"
proof (induction checks arbitrary: st)
  case Nil
  then show ?case by simp
next
  case (Cons c checks)
  obtain t where t: "checked_at c = Fin t"
    using Cons.prems(2) by (cases "checked_at c") auto
  obtain k where k: "cursor st = Fin k" and lok: "lo \<le> k"
    using Cons.prems(1) by (cases "cursor st") (auto simp: scan_ok_def)
  show ?case
  proof (cases "t < lo")
    case True
    have "scan_ok lo hi (st\<lparr>lastCheck := Some c\<rparr>)"
      using Cons.prems(1) t by (simp add: scan_ok_def)
    then have "scan_ok lo hi (scanChecks (Fin lo) (Fin hi) (Fin iv) checks (st\<lparr>lastCheck := Some c\<rparr>))"
      using Cons.prems(2) by (intro Cons.IH) simp_all
    then show ?thesis using True by (simp add: t)
  next
    case lo: False
    show ?thesis
    proof (cases "hi \<le> t")
      case True
      then show ?thesis using lo Cons.prems(1) by (simp add: t)
    next
      case False
      define st' where "st' = \<lparr>lastCheck = Some c, cursor = checked_at c,
         unknown_arr = processSegment (Fin iv) (lastCheck st) (unknown_arr st) (cursor st) (checked_at c)\<rparr>"
      have "iset lo hi (processSegment (Fin iv) (lastCheck st) (unknown_arr st) (Fin k) (Fin t))"
        using Cons.prems(1) lok False by (intro processSegment_iset) (simp_all add: scan_ok_def)
      then have "scan_ok lo hi st'"
        using lo by (simp add: scan_ok_def st'_def t k)
      then have "scan_ok lo hi (scanChecks (Fin lo) (Fin hi) (Fin iv) checks st')"
        using Cons.prems(2) by (intro Cons.IH) simp_all
      then show ?thesis using lo False by (simp add: t st'_def)
    qed
  qed
qed

lemma buildUnknown_iset:
  assumes "\<forall>c\<in>set checks. Number_isFinite (checked_at c)"
  shows "iset lo hi (buildUnknownIntervals (Fin lo) (Fin hi) intervalSec checks)"
proof (cases "hi \<le> lo")
  case True
  then show ?thesis by (simp add: buildUnknownIntervals_def)
next
  case lohi: False
  show ?thesis
  proof (cases "\<not> Number_isFinite intervalSec \<or> num_le intervalSec (Fin 0)")
    case True
    then have "buildUnknownIntervals (Fin lo) (Fin hi) intervalSec checks
        = [\<lparr>start = Fin lo, end' = Fin hi\<rparr>]"
      using lohi by (simp add: buildUnknownIntervals_def)
    then show ?thesis using lohi by (simp add: iset_def fin_iv_def)
  next
    case False
    then obtain iv where iv: "intervalSec = Fin iv" by (cases intervalSec) auto
    define st where "st = scanChecks (Fin lo) (Fin hi) (Fin iv) checks
                            \<lparr>lastCheck = None, cursor = Fin lo, unknown_arr = []\<rparr>"
    have "scan_ok lo hi \<lparr>lastCheck = None, cursor = Fin lo, unknown_arr = []\<rparr>"
      by (simp add: scan_ok_def)
    then have ok: "scan_ok lo hi st"
      unfolding st_def using assms by (rule scanChecks_ok)
    then obtain k where k: "cursor st = Fin k" and lok: "lo \<le> k"
      by (cases "cursor st") (auto simp: scan_ok_def)
    have "iset lo hi (processSegment (Fin iv) (lastCheck st) (unknown_arr st) (Fin k) (Fin hi))"
      using ok lok by (intro processSegment_iset) (simp_all add: scan_ok_def)
    moreover have "buildUnknownIntervals (Fin lo) (Fin hi) intervalSec checks
        = processSegment (Fin iv) (lastCheck st) (unknown_arr st) (cursor st) (Fin hi)"
      using lohi False by (simp add: buildUnknownIntervals_def iv st_def Let_def)
    ultimately show ?thesis by (simp add: k)
  qed
qed

text \<open>
  C9. For all finite \<open>rangeStart\<close> and \<open>rangeEnd\<close>, every \<open>interval_sec\<close> and every list of
  checks with finite \<open>checked_at\<close>, every interval that the classifier returns lies inside
  the range (\<open>rangeStart \<le> start < end \<le> rangeEnd\<close>) and the list is merged: each
  interval starts strictly after the end, and so after the start, of its predecessor. This
  holds in particular for \<open>rangeStart < rangeEnd\<close>, a positive finite \<open>interval_sec\<close> and a
  chronologically sorted list of checks; the proof needs neither the order of the checks
  nor the sign of \<open>interval_sec\<close>.
\<close>

theorem unknown_intervals_in_range_and_merged:
  assumes "Number_isFinite rangeStart" "Number_isFinite rangeEnd"
    and "\<forall>c\<in>set checks. Number_isFinite (checked_at c)"
  shows
    "(\<forall>it\<in>set (buildUnknownIntervals rangeStart rangeEnd intervalSec checks).
        num_le rangeStart (start it) \<and> num_lt (start it) (end' it) \<and> num_le (end' it) rangeEnd) \<and>
     (\<forall>i. Suc i < length (buildUnknownIntervals rangeStart rangeEnd intervalSec checks) \<longrightarrow>
        num_lt (end' (buildUnknownIntervals rangeStart rangeEnd intervalSec checks ! i))
               (start (buildUnknownIntervals rangeStart rangeEnd intervalSec checks ! Suc i)) \<and>
        num_lt (start (buildUnknownIntervals rangeStart rangeEnd intervalSec checks ! i))
               (start (buildUnknownIntervals rangeStart rangeEnd intervalSec checks ! Suc i)))"
proof -
  obtain lo hi where lo: "rangeStart = Fin lo" and hi: "rangeEnd = Fin hi"
    using assms(1,2) by (cases rangeStart; cases rangeEnd) auto
  let ?U = "buildUnknownIntervals rangeStart rangeEnd intervalSec checks"
  have inv: "iset lo hi ?U"
    unfolding lo hi using assms(3) by (rule buildUnknown_iset)
  have elems: "\<forall>x\<in>set ?U. fin_iv x \<and> lo \<le> val (start x) \<and> val (start x) < val (end' x) \<and>
                   val (end' x) \<le> hi"
    and sorted: "sorted_wrt (\<lambda>a b. val (end' a) < val (start b)) ?U"
    using inv by (simp_all add: iset_def)
  have a: "\<forall>it\<in>set ?U. num_le rangeStart (start it) \<and> num_lt (start it) (end' it) \<and>
                        num_le (end' it) rangeEnd"
    using elems by (auto simp: lo hi fin_iv_def fin_le fin_lt)
  have b: "num_lt (end' (?U ! i)) (start (?U ! Suc i)) \<and> num_lt (start (?U ! i)) (start (?U ! Suc i))"
    if i: "Suc i < length ?U" for i
  proof -
    have 1: "val (end' (?U ! i)) < val (start (?U ! Suc i))"
      using sorted i unfolding sorted_wrt_iff_nth_less by simp
    have 2: "fin_iv (?U ! i)" "fin_iv (?U ! Suc i)" "val (start (?U ! i)) < val (end' (?U ! i))"
      using elems i by simp_all
    show ?thesis using 1 2 by (simp add: fin_iv_def fin_lt)
  qed
  show ?thesis using a b by blast
qed

lemma unknown_demo:
  "buildUnknownIntervals (Fin 1000) (Fin 1600) (Fin 60) checks_demo
     = [\<lparr>start = Fin 1060, end' = Fin 1300\<rparr>, \<lparr>start = Fin 1360, end' = Fin 1600\<rparr>]"
  by (simp add: buildUnknownIntervals_def checks_demo_def processSegment_def addUnknown_def
      ensureInterval_def pushMergedInterval_def Let_def)

theorem unknown_intervals_in_range_and_merged_witness:
  "buildUnknownIntervals (Fin 1000) (Fin 1600) (Fin 60) checks_demo
     = [\<lparr>start = Fin 1060, end' = Fin 1300\<rparr>, \<lparr>start = Fin 1360, end' = Fin 1600\<rparr>] \<and>
   num_lt (end' (buildUnknownIntervals (Fin 1000) (Fin 1600) (Fin 60) checks_demo ! 0))
          (start (buildUnknownIntervals (Fin 1000) (Fin 1600) (Fin 60) checks_demo ! Suc 0))"
proof -
  have "\<forall>c\<in>set checks_demo. Number_isFinite (checked_at c)"
    by (simp add: checks_demo_def)
  from unknown_intervals_in_range_and_merged [where rangeStart = "Fin 1000"
      and rangeEnd = "Fin 1600" and intervalSec = "Fin 60" and checks = checks_demo]
    this show ?thesis
    by (simp add: unknown_demo)
qed

section \<open>Uptime conservation\<close>

lemma iset_bnd: "iset lo hi xs = ((\<forall>x\<in>set xs. bnd lo hi x) \<and> sorted_wrt (\<lambda>a b. val (end' a) < val (start b)) xs)"
  by (simp add: iset_def bnd_def)

lemma merge_step_bnd:
  assumes "\<forall>a\<in>set acc. bnd lo hi a" "bnd lo hi c"
  shows "\<forall>a\<in>set (merge_step acc c). bnd lo hi a"
proof (cases acc rule: rev_cases)
  case Nil
  then show ?thesis using assms by (simp add: merge_step_def)
next
  case (snoc ms p)
  have "bnd lo hi (p\<lparr>end' := Math_max (end' p) (end' c)\<rparr>)"
    using assms snoc by (auto simp: bnd_def fin_iv_def fin_max)
  then show ?thesis
    using assms snoc by (auto simp: merge_step_snoc)
qed

lemma foldl_merge_bnd:
  "\<forall>a\<in>set acc. bnd lo hi a \<Longrightarrow> \<forall>c\<in>set rest. bnd lo hi c \<Longrightarrow>
   \<forall>a\<in>set (foldl merge_step acc rest). bnd lo hi a"
proof (induction rest arbitrary: acc)
  case Nil
  then show ?case by simp
next
  case (Cons c rest)
  have "\<forall>a\<in>set (merge_step acc c). bnd lo hi a"
    using Cons.prems by (intro merge_step_bnd) simp_all
  then have "\<forall>a\<in>set (foldl merge_step (merge_step acc c) rest). bnd lo hi a"
    using Cons.prems by (intro Cons.IH) simp_all
  then show ?case by simp
qed

lemma merge_bnd:
  assumes "\<forall>x\<in>set xs. bnd lo hi x"
  shows "\<forall>a\<in>set (mergeIntervals xs). bnd lo hi a"
proof (cases "sort_by_start xs")
  case Nil
  then show ?thesis by (simp add: mergeIntervals_def)
next
  case (Cons first rest)
  have "sort_by_start xs = sort_key (\<lambda>it. val (start it)) xs"
    using assms by (intro sort_by_start_sort_key) (simp add: bnd_def fin_iv_def)
  then have "set (first # rest) = set xs"
    using Cons by (metis set_sort)
  then have "\<forall>a\<in>set (foldl merge_step [first] rest). bnd lo hi a"
    using assms by (intro foldl_merge_bnd) auto
  then show ?thesis by (simp add: mergeIntervals_def Cons)
qed

lemma merge_iset:
  assumes "\<forall>x\<in>set xs. bnd lo hi x"
  shows "iset lo hi (mergeIntervals xs)"
proof -
  have "\<forall>x\<in>set xs. fin_iv x" using assms by (simp add: bnd_def)
  then have "sep (mergeIntervals xs)" using merge_sep by blast
  then have "sorted_wrt (\<lambda>a b. val (end' a) < val (start b)) (mergeIntervals xs)"
    unfolding sep_def by (rule sorted_wrt_mono_rel [rotated]) simp
  then show ?thesis using merge_bnd [OF assms] by (simp add: iset_bnd)
qed

lemma clamp_outages_bnd:
  "\<forall>x\<in>set (clamp_outages (Fin lo) (Fin hi) rows). bnd lo hi x"
  by (auto simp: clamp_outages_def bnd_def fin_iv_def num_of_int_def split: option.splits)

lemma sum_fold_fin:
  "\<forall>x\<in>set xs. fin_iv x \<Longrightarrow>
   foldl (\<lambda>acc it. num_add acc (Math_max (Fin 0) (num_sub (end' it) (start it)))) (Fin c) xs
     = Fin (c + (\<Sum>x\<leftarrow>xs. max 0 (val (end' x) - val (start x))))"
proof (induction xs arbitrary: c)
  case Nil
  then show ?case by simp
next
  case (Cons x xs)
  have "num_add (Fin c) (Math_max (Fin 0) (num_sub (end' x) (start x)))
      = Fin (c + max 0 (val (end' x) - val (start x)))"
    using Cons.prems by (simp add: fin_iv_def fin_sub)
  then show ?case using Cons by (simp add: add.assoc)
qed

lemma sum_iset: "iset lo hi xs \<Longrightarrow> sumIntervals xs = Fin (meas xs)"
proof -
  assume a: "iset lo hi xs"
  then have "\<forall>x\<in>set xs. fin_iv x" by (simp add: iset_def)
  then have "sumIntervals xs = Fin (0 + (\<Sum>x\<leftarrow>xs. max 0 (val (end' x) - val (start x))))"
    unfolding sumIntervals_def by (rule sum_fold_fin)
  moreover have "(\<Sum>x\<leftarrow>xs. max 0 (val (end' x) - val (start x))) = meas xs"
    unfolding meas_def using a by (intro arg_cong [where f = sum_list] map_cong) (auto simp: iset_def)
  ultimately show ?thesis by simp
qed

lemma iset_non_overlapping: "iset lo hi xs \<Longrightarrow> non_overlapping xs"
  unfolding iset_def non_overlapping_def list_all_iff
  by (auto simp: fin_iv_def sorted_wrt_iff_nth_less fin_le intro!: less_imp_le)

lemma iset_Cons:
  "iset lo hi (x # xs) = (bnd lo hi x \<and> iset lo hi xs \<and> (\<forall>y\<in>set xs. val (end' x) < val (start y)))"
  by (auto simp: iset_def bnd_def)

lemma iset_raise:
  "iset lo hi xs \<Longrightarrow> \<forall>y\<in>set xs. lo' \<le> val (start y) \<Longrightarrow> iset lo' hi xs"
  by (simp add: iset_def)

lemma meas_bound: "iset lo hi xs \<Longrightarrow> lo \<le> hi \<Longrightarrow> meas xs \<le> hi - lo"
proof (induction xs arbitrary: lo)
  case Nil
  then show ?case by (simp add: meas_def)
next
  case (Cons x xs)
  have b: "bnd lo hi x" and t: "iset lo hi xs" and s: "\<forall>y\<in>set xs. val (end' x) < val (start y)"
    using Cons.prems(1) by (simp_all add: iset_Cons)
  have "iset (val (end' x)) hi xs"
    using t s by (intro iset_raise [OF t]) (auto intro: less_imp_le)
  then have "meas xs \<le> hi - val (end' x)"
    using b by (intro Cons.IH) (simp_all add: bnd_def)
  then show ?case using b by (simp add: meas_def bnd_def)
qed

lemma meas_Cons: "meas (x # xs) = (val (end' x) - val (start x)) + meas xs"
  by (simp add: meas_def)

lemma union_step:
  assumes a: "iset lo hi (x # a')" and b: "iset lo hi (y # b')"
    and le: "val (end' x) \<le> val (end' y)"
    and ih: "\<And>lo'. iset lo' hi a' \<Longrightarrow> iset lo' hi (y # b') \<Longrightarrow> lo' \<le> hi \<Longrightarrow>
               meas a' + meas (y # b') - total_ov a' (y # b') \<le> hi - lo'"
  shows "meas (x # a') + meas (y # b') - total_ov (x # a') (y # b') \<le> hi - lo"
proof -
  have bx: "bnd lo hi x" and ta: "iset lo hi a'" and sa: "\<forall>z\<in>set a'. val (end' x) < val (start z)"
    using a by (simp_all add: iset_Cons)
  have by': "bnd lo hi y" and tb: "iset lo hi b'" and sb: "\<forall>z\<in>set b'. val (end' y) < val (start z)"
    using b by (simp_all add: iset_Cons)
  have "(\<Sum>z\<leftarrow>b'. pair_ov x z) = 0"
    using sb le by (intro row_ov_zero) force
  then have tot: "total_ov (x # a') (y # b') = pair_ov x y + total_ov a' (y # b')"
    by (simp add: total_ov_Cons1)
  show ?thesis
  proof (cases "val (start y) < val (end' x)")
    case True
    have "iset (val (start y)) hi a'"
      using sa True by (intro iset_raise [OF ta]) force
    moreover have "iset (val (start y)) hi (y # b')"
      using by' sb by (intro iset_raise [OF b]) (force simp: bnd_def)
    ultimately have "meas a' + meas (y # b') - total_ov a' (y # b') \<le> hi - val (start y)"
      using by' by (intro ih) (simp_all add: bnd_def)
    moreover have "pair_ov x y = val (end' x) - max (val (start x)) (val (start y))"
      using True le bx by (simp add: pair_ov_def bnd_def min_def max_def)
    ultimately show ?thesis
      using bx by' by (simp add: tot meas_Cons [of x] bnd_def max_def split: if_splits)
  next
    case False
    have "iset (val (end' x)) hi a'"
      using sa by (intro iset_raise [OF ta]) force
    moreover have "iset (val (end' x)) hi (y # b')"
      using by' sb False by (intro iset_raise [OF b]) (force simp: bnd_def)
    ultimately have "meas a' + meas (y # b') - total_ov a' (y # b') \<le> hi - val (end' x)"
      using bx by (intro ih) (simp_all add: bnd_def)
    moreover have "pair_ov x y = 0"
      using False by (intro pair_ov_zero) simp
    ultimately show ?thesis
      using bx by (simp add: tot meas_Cons [of x] bnd_def)
  qed
qed

lemma union_bound:
  "iset lo hi a \<Longrightarrow> iset lo hi b \<Longrightarrow> lo \<le> hi \<Longrightarrow>
   meas a + meas b - total_ov a b \<le> hi - lo"
proof (induction "length a + length b" arbitrary: a b lo rule: less_induct)
  case less
  show ?case
  proof (cases a)
    case Nil
    then show ?thesis using meas_bound [OF less.prems(2,3)] by (simp add: meas_def)
  next
    case a: (Cons x a')
    show ?thesis
    proof (cases b)
      case Nil
      then show ?thesis using meas_bound [OF less.prems(1,3)] by (simp add: meas_def)
    next
      case b: (Cons y b')
      show ?thesis
      proof (cases "val (end' x) \<le> val (end' y)")
        case True
        have "meas (x # a') + meas (y # b') - total_ov (x # a') (y # b') \<le> hi - lo"
        proof (rule union_step [OF _ _ True])
          show "iset lo hi (x # a')" "iset lo hi (y # b')"
            using less.prems by (simp_all add: a b)
          show "meas a' + meas (y # b') - total_ov a' (y # b') \<le> hi - lo'"
            if "iset lo' hi a'" "iset lo' hi (y # b')" "lo' \<le> hi" for lo'
            using that by (intro less.hyps) (simp_all add: a b)
        qed
        then show ?thesis by (simp add: a b)
      next
        case False
        then have le: "val (end' y) \<le> val (end' x)" by simp
        have "meas (y # b') + meas (x # a') - total_ov (y # b') (x # a') \<le> hi - lo"
        proof (rule union_step [OF _ _ le])
          show "iset lo hi (y # b')" "iset lo hi (x # a')"
            using less.prems by (simp_all add: a b)
          show "meas b' + meas (x # a') - total_ov b' (x # a') \<le> hi - lo'"
            if "iset lo' hi b'" "iset lo' hi (x # a')" "lo' \<le> hi" for lo'
          proof -
            have "meas (x # a') + meas b' - total_ov (x # a') b' \<le> hi - lo'"
              using that by (intro less.hyps) (simp_all add: a b)
            then show ?thesis by (simp add: total_ov_sym [of b'] add.commute)
          qed
        qed
        then show ?thesis by (simp add: a b total_ov_sym [of "y # b'"] add.commute)
      qed
    qed
  qed
qed

lemma meas_nonneg: "iset lo hi xs \<Longrightarrow> 0 \<le> meas xs"
  unfolding meas_def by (rule sum_list_nonneg) (auto simp: iset_def)

lemma iset_empty_range: "iset lo hi xs \<Longrightarrow> hi < lo \<Longrightarrow> xs = []"
  by (cases xs) (auto simp: iset_def)

lemma unavailable_bound:
  assumes "iset lo hi U" "iset lo hi D"
  shows "meas D + max 0 (meas U - total_ov U D) \<le> max 0 (hi - lo)"
proof (cases "lo \<le> hi")
  case True
  have "meas U + meas D - total_ov U D \<le> hi - lo"
    using assms True by (rule union_bound)
  moreover have "meas D \<le> hi - lo"
    using assms(2) True by (rule meas_bound)
  ultimately show ?thesis by (simp add: max_def)
next
  case False
  then have "U = []" "D = []"
    using assms by (auto dest: iset_empty_range)
  then show ?thesis by (simp add: meas_def)
qed

lemma clock_fin: "\<exists>hi. num_mul (Math_floor (num_div (Math_floor (num_div (num_of_int d) (Fin 1000))) (Fin 60))) (Fin 60) = Fin hi"
  by (simp add: num_of_int_def)

lemma rangeToSeconds_fin: "\<exists>s. rangeToSeconds rng = Fin s"
  by (cases rng) simp_all

lemma uptime_of_fields:
  "\<exists>lo hi D U.
     iset lo hi D \<and> iset lo hi U \<and>
     range_start_at (uptime_of d rng m outageRows checkRows) = Fin lo \<and>
     range_end_at (uptime_of d rng m outageRows checkRows) = Fin hi \<and>
     total_sec (uptime_of d rng m outageRows checkRows) = Fin (max 0 (hi - lo)) \<and>
     downtime_sec (uptime_of d rng m outageRows checkRows) = Fin (meas D) \<and>
     unknown_sec (uptime_of d rng m outageRows checkRows) = Fin (max 0 (meas U - total_ov U D)) \<and>
     uptime_sec (uptime_of d rng m outageRows checkRows) =
       Fin (max 0 (max 0 (hi - lo) - min (max 0 (hi - lo)) (meas D + max 0 (meas U - total_ov U D)))) \<and>
     uptime_pct (uptime_of d rng m outageRows checkRows) =
       (if max 0 (hi - lo) = 0 then Fin 0
        else Fin (max 0 (max 0 (hi - lo) - min (max 0 (hi - lo)) (meas D + max 0 (meas U - total_ov U D)))
                  / max 0 (hi - lo) * 100))"
proof -
  obtain hi where hi: "num_mul (Math_floor (num_div (Math_floor (num_div (num_of_int d) (Fin 1000))) (Fin 60))) (Fin 60) = Fin hi"
    using clock_fin by blast
  obtain s where s: "rangeToSeconds rng = Fin s"
    using rangeToSeconds_fin by blast
  define lo where "lo = max (hi - s) (of_int (created_at m))"
  define D where "D = mergeIntervals (clamp_outages (Fin lo) (Fin hi)
      (case outageRows of None \<Rightarrow> [] | Some rs \<Rightarrow> rs))"
  define U where "U = buildUnknownIntervals (Fin lo) (Fin hi) (num_of_int (interval_sec m))
      (map (\<lambda>r. \<lparr>checked_at = num_of_int (row_checked_at r),
                  status = toCheckStatus (Some (row_status r))\<rparr>)
         (case checkRows of None \<Rightarrow> [] | Some rs \<Rightarrow> rs))"
  have D: "iset lo hi D"
    unfolding D_def by (intro merge_iset clamp_outages_bnd)
  have U: "iset lo hi U"
    unfolding U_def by (intro buildUnknown_iset) (simp add: num_of_int_def)
  have sD: "sumIntervals D = Fin (meas D)" using D by (rule sum_iset)
  have sU: "sumIntervals U = Fin (meas U)" using U by (rule sum_iset)
  have ov: "overlapSeconds U D = Fin (total_ov U D)"
    using sweep_total [OF iset_non_overlapping [OF U] iset_non_overlapping [OF D], of 0]
    by (simp add: overlapSeconds_def)
  have rs: "Math_max (num_sub (Fin hi) (Fin s)) (num_of_int (created_at m)) = Fin lo"
    by (simp add: lo_def num_of_int_def)
  show ?thesis
    apply (rule exI [of _ lo], rule exI [of _ hi], rule exI [of _ D], rule exI [of _ U])
    unfolding uptime_of_def Let_def hi s rs
    unfolding D_def [symmetric] U_def [symmetric] sD sU ov
    using D U by simp
qed

text \<open>
  C1. Every response of \<open>GET /monitors/:id/uptime\<close>, for every clock value, monitor,
  range, list of outage rows and list of check rows, satisfies
  \<open>unknown_sec + downtime_sec + uptime_sec = total_sec\<close>; \<open>unknown_sec\<close>, \<open>downtime_sec\<close> and
  \<open>uptime_sec\<close> are not negative, \<open>uptime_sec \<le> total_sec\<close>, \<open>uptime_pct\<close> lies in
  \<open>[0, 100]\<close>, and \<open>uptime_sec + min(total_sec, downtime_sec + unknown_sec) = total_sec\<close>.
  The columns of the rows are integers.
\<close>

theorem uptime_conservation:
  assumes "uptime_handler date_now idParam rangeParam monitor outageRows checkRows = Inr r"
  shows
   "num_eq (num_add (num_add (unknown_sec r) (downtime_sec r)) (uptime_sec r)) (total_sec r) \<and>
    num_le (Fin 0) (unknown_sec r) \<and> num_le (Fin 0) (downtime_sec r) \<and>
    num_le (Fin 0) (uptime_sec r) \<and> num_le (uptime_sec r) (total_sec r) \<and>
    num_le (Fin 0) (uptime_pct r) \<and> num_le (uptime_pct r) (Fin 100) \<and>
    num_eq (num_add (uptime_sec r)
              (Math_min (total_sec r) (num_add (downtime_sec r) (unknown_sec r)))) (total_sec r)"
proof -
  obtain rng m where r: "r = uptime_of date_now rng m outageRows checkRows"
    using assms by (auto simp: uptime_handler_def split: sum.splits option.splits)
  obtain lo hi D U where D: "iset lo hi D" and U: "iset lo hi U"
    and t: "total_sec r = Fin (max 0 (hi - lo))"
    and dn: "downtime_sec r = Fin (meas D)"
    and un: "unknown_sec r = Fin (max 0 (meas U - total_ov U D))"
    and up: "uptime_sec r =
       Fin (max 0 (max 0 (hi - lo) - min (max 0 (hi - lo)) (meas D + max 0 (meas U - total_ov U D))))"
    and pc: "uptime_pct r =
       (if max 0 (hi - lo) = 0 then Fin 0
        else Fin (max 0 (max 0 (hi - lo) - min (max 0 (hi - lo)) (meas D + max 0 (meas U - total_ov U D)))
                  / max 0 (hi - lo) * 100))"
    unfolding r using uptime_of_fields [of date_now rng m outageRows checkRows] by blast
  define T where "T = max 0 (hi - lo)"
  define d where "d = meas D"
  define k where "k = max 0 (meas U - total_ov U D)"
  have d0: "0 \<le> d" unfolding d_def using D by (rule meas_nonneg)
  have k0: "0 \<le> k" by (simp add: k_def)
  have dk: "d + k \<le> T" unfolding d_def k_def T_def using U D by (rule unavailable_bound)
  have T0: "0 \<le> T" by (simp add: T_def)
  have upv: "max 0 (T - min T (d + k)) = T - (d + k)"
    using dk by (simp add: min_def max_def)
  have pct: "0 \<le> (T - (d + k)) / T * 100 \<and> (T - (d + k)) / T * 100 \<le> 100" if "T \<noteq> 0"
  proof -
    have Tp: "0 < T" using T0 that by simp
    have "0 \<le> (T - (d + k)) / T" using dk Tp by simp
    moreover have "(T - (d + k)) / T \<le> 1" using d0 k0 Tp by simp
    moreover have "\<And>q :: rat. 0 \<le> q \<Longrightarrow> q \<le> 1 \<Longrightarrow> 0 \<le> q * 100 \<and> q * 100 \<le> 100"
      by simp
    ultimately show ?thesis by blast
  qed
  show ?thesis
    unfolding t dn un up pc T_def [symmetric] d_def [symmetric] k_def [symmetric] upv
    using d0 k0 dk T0 pct by (simp add: min_def)
qed

lemma uptime_demo:
  "uptime_handler 90000000 (Fin 7) (Some ''24h'') (Some monitor_demo) (Some outages_demo)
      (Some checkrows_demo)
   = Inr \<lparr>monitor_id = 7, monitor_name = ''api'', range' = R24h,
          range_start_at = Fin 89400, range_end_at = Fin 90000, total_sec = Fin 600,
          downtime_sec = Fin 300, unknown_sec = Fin 0, uptime_sec = Fin 300, uptime_pct = Fin 50\<rparr>"
  by (simp add: uptime_handler_def parse_id_def parse_uptime_range_def uptime_of_def
      monitor_demo_def outages_demo_def checkrows_demo_def clamp_outages_def num_of_int_def
      mergeIntervals_def sort_by_start_def sumIntervals_def overlapSeconds_def
      buildUnknownIntervals_def processSegment_def addUnknown_def ensureInterval_def
      pushMergedInterval_def toCheckStatus_def Let_def)

theorem uptime_conservation_witness:
  "uptime_handler 90000000 (Fin 7) (Some ''24h'') (Some monitor_demo) (Some outages_demo)
      (Some checkrows_demo)
   = Inr \<lparr>monitor_id = 7, monitor_name = ''api'', range' = R24h,
          range_start_at = Fin 89400, range_end_at = Fin 90000, total_sec = Fin 600,
          downtime_sec = Fin 300, unknown_sec = Fin 0, uptime_sec = Fin 300, uptime_pct = Fin 50\<rparr> \<and>
   num_eq (num_add (num_add (Fin 0) (Fin 300)) (Fin 300)) (Fin 600) \<and>
   num_le (Fin 50) (Fin 100)"
  using uptime_conservation [OF uptime_demo] uptime_demo by simp

section \<open>Fleet status: freshness, counts and overall status\<close>

lemma now_floor: "Math_floor (num_div (num_of_int d) (Fin 1000)) = num_of_int (d div 1000)"
  apply (simp add: num_of_int_def)
  by (metis floor_divide_of_int_eq of_int_numeral)

lemma num_gt_of_int: "num_gt (num_sub (num_of_int a) (num_of_int b)) (num_mul (num_of_int c) (Fin 2)) = (a - b > 2 * c)"
proof -
  have "(of_int c * 2 < (of_int a - of_int b :: rat)) = (of_int (2 * c) < (of_int (a - b) :: rat))"
    by (simp add: mult.commute)
  also have "\<dots> = (2 * c < a - b)" by (simp only: of_int_less_iff)
  finally show ?thesis by (simp add: num_of_int_def)
qed

lemma monitor_entry_stored:
  "let m = monitor_entry (num_of_int now) r; s = row_state_status r in
    (s = Some ''paused'' \<longrightarrow> \<not> is_stale m \<and> mon_status m = Paused) \<and>
    (s = Some ''maintenance'' \<longrightarrow> \<not> is_stale m \<and> mon_status m = Maintenance) \<and>
    (s \<noteq> Some ''paused'' \<and> s \<noteq> Some ''maintenance'' \<and> row_last_checked_at r = None \<longrightarrow>
       is_stale m) \<and>
    (\<forall>t. s \<noteq> Some ''paused'' \<and> s \<noteq> Some ''maintenance'' \<and> row_last_checked_at r = Some t \<longrightarrow>
       (is_stale m \<longleftrightarrow> now - t > 2 * row_interval_sec r)) \<and>
    (is_stale m \<longrightarrow> mon_status m = Unknown \<and> mon_last_latency_ms m = None \<and>
       mon_last_checked_at m = row_last_checked_at r) \<and>
    (\<not> is_stale m \<longrightarrow>
       mon_status m = (if s = Some ''up'' then Up
                       else if s = Some ''down'' then Down
                       else if s = Some ''maintenance'' then Maintenance
                       else if s = Some ''paused'' then Paused
                       else Unknown) \<and>
       mon_last_latency_ms m = row_last_latency_ms r \<and>
       mon_last_checked_at m = row_last_checked_at r)"
  by (auto simp: monitor_entry_def toMonitorStatus_def Let_def num_gt_of_int split: option.splits)

lemma attach_nth: "i < length ms \<Longrightarrow>
   attach_heartbeats bm ms ! i = (ms ! i)\<lparr>heartbeats := rev (case bm (mon_id (ms ! i)) of None \<Rightarrow> [] | Some rows \<Rightarrow> rows)\<rparr>"
  by (simp add: attach_heartbeats_def)

lemma monitors_nth:
  "i < length rows \<Longrightarrow> \<exists>h. monitors (status_handler d (Some rows) hbs) ! i = (monitor_entry (num_of_int (d div 1000)) (rows ! i))\<lparr>heartbeats := h\<rparr>"
  by (auto simp: status_handler_def Let_def now_floor attach_nth)

text \<open>
  C5. For every monitor row of the \<open>GET /status\<close> response: a row whose stored state is
  \<open>paused\<close> or \<open>maintenance\<close> is not stale, whatever \<open>last_checked_at\<close> is, and is
  exposed with that state; any other row is stale when \<open>last_checked_at\<close> is \<open>null\<close>, and
  otherwise exactly when \<open>now - last_checked_at > 2 * interval_sec\<close>, where \<open>now\<close> is the
  clock in whole seconds. A stale row is exposed with status \<open>unknown\<close> and no latency,
  and keeps the stored \<open>last_checked_at\<close>; a row that is not stale is exposed with its
  stored state (\<open>unknown\<close> for a state that is \<open>null\<close> or not one of the five names) and
  its stored latency. The statement is for a clock below \<open>2^53\<close> milliseconds and for
  \<open>last_checked_at\<close> and \<open>interval_sec\<close> of magnitude at most \<open>2^52\<close>, where the
  subtraction, the doubling and the comparison of the code are exact in double precision.
\<close>

theorem status_freshness:
  assumes "i < length rows"
    and "\<bar>date_now\<bar> < 2 ^ 53"
    and "\<bar>row_interval_sec (rows ! i)\<bar> \<le> 2 ^ 52"
    and "case row_last_checked_at (rows ! i) of None \<Rightarrow> True | Some t \<Rightarrow> \<bar>t\<bar> \<le> 2 ^ 52"
  shows
  "let m = monitors (status_handler date_now (Some rows) heartbeatRows) ! i;
       r = rows ! i;
       s = row_state_status r;
       now = date_now div 1000 in
    length (monitors (status_handler date_now (Some rows) heartbeatRows)) = length rows \<and>
    (s = Some ''paused'' \<longrightarrow> \<not> is_stale m \<and> mon_status m = Paused) \<and>
    (s = Some ''maintenance'' \<longrightarrow> \<not> is_stale m \<and> mon_status m = Maintenance) \<and>
    (s \<noteq> Some ''paused'' \<and> s \<noteq> Some ''maintenance'' \<and> row_last_checked_at r = None \<longrightarrow>
       is_stale m) \<and>
    (\<forall>t. s \<noteq> Some ''paused'' \<and> s \<noteq> Some ''maintenance'' \<and> row_last_checked_at r = Some t \<longrightarrow>
       (is_stale m \<longleftrightarrow> now - t > 2 * row_interval_sec r)) \<and>
    (is_stale m \<longrightarrow> mon_status m = Unknown \<and> mon_last_latency_ms m = None \<and>
       mon_last_checked_at m = row_last_checked_at r) \<and>
    (\<not> is_stale m \<longrightarrow>
       mon_status m = (if s = Some ''up'' then Up
                       else if s = Some ''down'' then Down
                       else if s = Some ''maintenance'' then Maintenance
                       else if s = Some ''paused'' then Paused
                       else Unknown) \<and>
       mon_last_latency_ms m = row_last_latency_ms r \<and>
       mon_last_checked_at m = row_last_checked_at r)"
proof -
  obtain h where m: "monitors (status_handler date_now (Some rows) heartbeatRows) ! i =
      (monitor_entry (num_of_int (date_now div 1000)) (rows ! i))\<lparr>heartbeats := h\<rparr>"
    using monitors_nth [OF assms(1)] by blast
  have len: "length (monitors (status_handler date_now (Some rows) heartbeatRows)) = length rows"
    by (simp add: status_handler_def Let_def attach_heartbeats_def)
  show ?thesis
    using monitor_entry_stored [of "date_now div 1000" "rows ! i"] len
    unfolding Let_def m by simp
qed

theorem status_freshness_witness:
  "is_stale (monitors (status_handler 10000000 (Some [row_S5, row_S6]) None) ! 0) \<and>
   mon_status (monitors (status_handler 10000000 (Some [row_S5, row_S6]) None) ! 0) = Unknown \<and>
   mon_last_latency_ms (monitors (status_handler 10000000 (Some [row_S5, row_S6]) None) ! 0) = None \<and>
   mon_last_checked_at (monitors (status_handler 10000000 (Some [row_S5, row_S6]) None) ! 0)
     = Some 9000 \<and>
   \<not> is_stale (monitors (status_handler 10000000 (Some [row_S5, row_S6]) None) ! Suc 0) \<and>
   mon_status (monitors (status_handler 10000000 (Some [row_S5, row_S6]) None) ! Suc 0) = Paused \<and>
   mon_last_checked_at (monitors (status_handler 10000000 (Some [row_S5, row_S6]) None) ! Suc 0)
     = None"
proof -
  have b: "\<bar>10000000 :: int\<bar> < 2 ^ 53" by simp
  have r0: "[row_S5, row_S6] ! 0 = row_S5" and r1: "[row_S5, row_S6] ! Suc 0 = row_S6"
    by simp_all
  have h0: "\<bar>row_interval_sec ([row_S5, row_S6] ! 0)\<bar> \<le> 2 ^ 52"
    "case row_last_checked_at ([row_S5, row_S6] ! 0) of None \<Rightarrow> True | Some t \<Rightarrow> \<bar>t\<bar> \<le> 2 ^ 52"
    unfolding r0 by (simp_all add: row_S5_def)
  have h1: "\<bar>row_interval_sec ([row_S5, row_S6] ! Suc 0)\<bar> \<le> 2 ^ 52"
    "case row_last_checked_at ([row_S5, row_S6] ! Suc 0) of None \<Rightarrow> True | Some t \<Rightarrow> \<bar>t\<bar> \<le> 2 ^ 52"
    unfolding r1 by (simp_all add: row_S6_def)
  have l0: "0 < length [row_S5, row_S6]" and l1: "Suc 0 < length [row_S5, row_S6]"
    by simp_all
  from status_freshness [OF l0 b h0, of None] status_freshness [OF l1 b h1, of None]
  show ?thesis
    unfolding Let_def r0 r1 by (simp add: row_S5_def row_S6_def)
qed

text \<open>The responses for the rows of scenarios S5 and S6 at \<open>now = 10000\<close>.\<close>

lemma entry_S5: "monitor_entry (num_of_int 10000) row_S5 =
  \<lparr>mon_id = 1, mon_name = ''api'', mon_type = ''http'', mon_status = Unknown, is_stale = True,
   mon_last_checked_at = Some 9000, mon_last_latency_ms = None, heartbeats = []\<rparr>"
  by (simp add: monitor_entry_def row_S5_def toMonitorStatus_def num_gt_of_int)

lemma entry_S6: "monitor_entry (num_of_int 10000) row_S6 =
  \<lparr>mon_id = 2, mon_name = ''batch'', mon_type = ''tcp'', mon_status = Paused, is_stale = False,
   mon_last_checked_at = None, mon_last_latency_ms = None, heartbeats = []\<rparr>"
  by (simp add: monitor_entry_def row_S6_def toMonitorStatus_def)

lemma now_S5: "Math_floor (num_div (num_of_int 10000000) (Fin 1000)) = num_of_int 10000"
  by (simp add: now_floor)

lemma summary_S5_S6:
  "summary (status_handler 10000000 (Some [row_S5, row_S6]) None)
     = \<lparr>up = 0, down = 0, maintenance = 0, paused = 1, unknown = 1\<rparr>"
  by (simp add: status_handler_def Let_def now_S5 entry_S5 entry_S6 tally_def)

lemma summary_S6:
  "summary (status_handler 10000000 (Some [row_S6]) None)
     = \<lparr>up = 0, down = 0, maintenance = 0, paused = 1, unknown = 0\<rparr>"
  by (simp add: status_handler_def Let_def now_S5 entry_S6 tally_def)

lemma tally_counts_aux:
  "up (foldl (\<lambda>counts m. count_status counts (mon_status m)) c ms) = up c + length (filter (\<lambda>m. mon_status m = Up) ms) \<and>
   down (foldl (\<lambda>counts m. count_status counts (mon_status m)) c ms) = down c + length (filter (\<lambda>m. mon_status m = Down) ms) \<and>
   maintenance (foldl (\<lambda>counts m. count_status counts (mon_status m)) c ms) = maintenance c + length (filter (\<lambda>m. mon_status m = Maintenance) ms) \<and>
   paused (foldl (\<lambda>counts m. count_status counts (mon_status m)) c ms) = paused c + length (filter (\<lambda>m. mon_status m = Paused) ms) \<and>
   unknown (foldl (\<lambda>counts m. count_status counts (mon_status m)) c ms) = unknown c + length (filter (\<lambda>m. mon_status m = Unknown) ms)"
proof (induction ms arbitrary: c)
  case Nil
  then show ?case by simp
next
  case (Cons m ms)
  show ?case
    by (cases "mon_status m") (simp_all add: Cons.IH)
qed

lemma tally_counts:
  "up (tally ms) = length (filter (\<lambda>m. mon_status m = Up) ms)"
  "down (tally ms) = length (filter (\<lambda>m. mon_status m = Down) ms)"
  "maintenance (tally ms) = length (filter (\<lambda>m. mon_status m = Maintenance) ms)"
  "paused (tally ms) = length (filter (\<lambda>m. mon_status m = Paused) ms)"
  "unknown (tally ms) = length (filter (\<lambda>m. mon_status m = Unknown) ms)"
  using tally_counts_aux [of "\<lparr>up = 0, down = 0, maintenance = 0, paused = 0, unknown = 0\<rparr>" ms]
  by (simp_all add: tally_def)

lemma status_partition:
  "length (filter (\<lambda>m. mon_status m = Up) ms) + length (filter (\<lambda>m. mon_status m = Down) ms) +
   length (filter (\<lambda>m. mon_status m = Maintenance) ms) + length (filter (\<lambda>m. mon_status m = Paused) ms) +
   length (filter (\<lambda>m. mon_status m = Unknown) ms) = length ms"
proof (induction ms)
  case Nil
  then show ?case by simp
next
  case (Cons m ms)
  then show ?case by (cases "mon_status m") simp_all
qed

lemma attach_status: "map mon_status (attach_heartbeats bm ms) = map mon_status ms"
  by (simp add: attach_heartbeats_def)

lemma filter_status_length:
  "map mon_status xs = map mon_status ys \<Longrightarrow>
   length (filter (\<lambda>m. mon_status m = s) xs) = length (filter (\<lambda>m. mon_status m = s) ys)"
proof -
  assume a: "map mon_status xs = map mon_status ys"
  have "length (filter (\<lambda>m. mon_status m = s) xs) = length (filter (\<lambda>t. t = s) (map mon_status xs))"
    by (simp add: filter_map comp_def)
  also have "\<dots> = length (filter (\<lambda>t. t = s) (map mon_status ys))" using a by simp
  also have "\<dots> = length (filter (\<lambda>m. mon_status m = s) ys)"
    by (simp add: filter_map comp_def)
  finally show ?thesis .
qed

lemma summary_is_tally:
  "\<exists>ms. summary (status_handler d results hbs) = tally ms \<and>
        map mon_status ms = map mon_status (monitors (status_handler d results hbs))"
  by (auto simp: status_handler_def Let_def attach_status)

lemma response_counts:
  "up (summary (status_handler d results hbs))
       = length (filter (\<lambda>m. mon_status m = Up) (monitors (status_handler d results hbs)))"
  "down (summary (status_handler d results hbs))
       = length (filter (\<lambda>m. mon_status m = Down) (monitors (status_handler d results hbs)))"
  "maintenance (summary (status_handler d results hbs))
       = length (filter (\<lambda>m. mon_status m = Maintenance) (monitors (status_handler d results hbs)))"
  "paused (summary (status_handler d results hbs))
       = length (filter (\<lambda>m. mon_status m = Paused) (monitors (status_handler d results hbs)))"
  "unknown (summary (status_handler d results hbs))
       = length (filter (\<lambda>m. mon_status m = Unknown) (monitors (status_handler d results hbs)))"
proof -
  let ?resp = "status_handler d results hbs"
  obtain ms where s: "summary ?resp = tally ms"
    and eq: "map mon_status ms = map mon_status (monitors ?resp)"
    using summary_is_tally by blast
  have f: "\<And>st. length (filter (\<lambda>m. mon_status m = st) ms) =
                length (filter (\<lambda>m. mon_status m = st) (monitors ?resp))"
    by (rule filter_status_length [OF eq])
  show "up (summary ?resp) = length (filter (\<lambda>m. mon_status m = Up) (monitors ?resp))"
    "down (summary ?resp) = length (filter (\<lambda>m. mon_status m = Down) (monitors ?resp))"
    "maintenance (summary ?resp) = length (filter (\<lambda>m. mon_status m = Maintenance) (monitors ?resp))"
    "paused (summary ?resp) = length (filter (\<lambda>m. mon_status m = Paused) (monitors ?resp))"
    "unknown (summary ?resp) = length (filter (\<lambda>m. mon_status m = Unknown) (monitors ?resp))"
    by (simp_all add: s tally_counts f)
qed

lemma count_pos: "(0 < length (filter P xs)) = (\<exists>x\<in>set xs. P x)"
  by (induction xs) auto

text \<open>
  C10. In every \<open>GET /status\<close> response the five counts of \<open>summary\<close> add up to the
  number of entries of \<open>monitors\<close>, and each count is the number of entries exposed with
  that status.
\<close>

theorem summary_counts_total:
  "up (summary (status_handler date_now results heartbeatRows)) +
   down (summary (status_handler date_now results heartbeatRows)) +
   maintenance (summary (status_handler date_now results heartbeatRows)) +
   paused (summary (status_handler date_now results heartbeatRows)) +
   unknown (summary (status_handler date_now results heartbeatRows))
     = length (monitors (status_handler date_now results heartbeatRows))
   \<and> up (summary (status_handler date_now results heartbeatRows))
       = length (filter (\<lambda>m. mon_status m = Up) (monitors (status_handler date_now results heartbeatRows)))
   \<and> down (summary (status_handler date_now results heartbeatRows))
       = length (filter (\<lambda>m. mon_status m = Down) (monitors (status_handler date_now results heartbeatRows)))
   \<and> maintenance (summary (status_handler date_now results heartbeatRows))
       = length (filter (\<lambda>m. mon_status m = Maintenance) (monitors (status_handler date_now results heartbeatRows)))
   \<and> paused (summary (status_handler date_now results heartbeatRows))
       = length (filter (\<lambda>m. mon_status m = Paused) (monitors (status_handler date_now results heartbeatRows)))
   \<and> unknown (summary (status_handler date_now results heartbeatRows))
       = length (filter (\<lambda>m. mon_status m = Unknown) (monitors (status_handler date_now results heartbeatRows)))"
  using status_partition [of "monitors (status_handler date_now results heartbeatRows)"]
  by (simp add: response_counts)

theorem summary_counts_total_witness:
  "length (monitors (status_handler 10000000 (Some [row_S5, row_S6]) None)) = 2 \<and>
   length (filter (\<lambda>m. mon_status m = Paused)
     (monitors (status_handler 10000000 (Some [row_S5, row_S6]) None))) = 1"
  using summary_counts_total [of 10000000 "Some [row_S5, row_S6]" None]
  by (simp add: summary_S5_S6)

text \<open>
  C6. In every \<open>GET /status\<close> response \<open>overall_status\<close> follows from the counts of
  \<open>summary\<close> by strict priority: \<open>down\<close>, then \<open>unknown\<close>, then \<open>maintenance\<close>, then
  \<open>up\<close>, then \<open>paused\<close>, and \<open>unknown\<close> when all counts are zero.
  Since each count is the number of monitors exposed with that status, the same chain
  decides by the presence of such a monitor in the response.
\<close>

theorem overall_status_priority:
  "overall_status (status_handler date_now results heartbeatRows) =
     (if down (summary (status_handler date_now results heartbeatRows)) > 0 then Down
      else if unknown (summary (status_handler date_now results heartbeatRows)) > 0 then Unknown
      else if maintenance (summary (status_handler date_now results heartbeatRows)) > 0 then Maintenance
      else if up (summary (status_handler date_now results heartbeatRows)) > 0 then Up
      else if paused (summary (status_handler date_now results heartbeatRows)) > 0 then Paused
      else Unknown) \<and>
   overall_status (status_handler date_now results heartbeatRows) =
     (if \<exists>m\<in>set (monitors (status_handler date_now results heartbeatRows)). mon_status m = Down
        then Down
      else if \<exists>m\<in>set (monitors (status_handler date_now results heartbeatRows)). mon_status m = Unknown
        then Unknown
      else if \<exists>m\<in>set (monitors (status_handler date_now results heartbeatRows)). mon_status m = Maintenance
        then Maintenance
      else if \<exists>m\<in>set (monitors (status_handler date_now results heartbeatRows)). mon_status m = Up
        then Up
      else if \<exists>m\<in>set (monitors (status_handler date_now results heartbeatRows)). mon_status m = Paused
        then Paused
      else Unknown)"
proof -
  let ?resp = "status_handler date_now results heartbeatRows"
  have chain: "overall_status ?resp = overall_status_of (summary ?resp)"
    by (simp add: status_handler_def Let_def)
  have pos: "(0 < down (summary ?resp)) = (\<exists>m\<in>set (monitors ?resp). mon_status m = Down)"
    "(0 < unknown (summary ?resp)) = (\<exists>m\<in>set (monitors ?resp). mon_status m = Unknown)"
    "(0 < maintenance (summary ?resp)) = (\<exists>m\<in>set (monitors ?resp). mon_status m = Maintenance)"
    "(0 < up (summary ?resp)) = (\<exists>m\<in>set (monitors ?resp). mon_status m = Up)"
    "(0 < paused (summary ?resp)) = (\<exists>m\<in>set (monitors ?resp). mon_status m = Paused)"
    by (simp_all only: response_counts count_pos)
  have first: "overall_status ?resp =
     (if down (summary ?resp) > 0 then Down
      else if unknown (summary ?resp) > 0 then Unknown
      else if maintenance (summary ?resp) > 0 then Maintenance
      else if up (summary ?resp) > 0 then Up
      else if paused (summary ?resp) > 0 then Paused
      else Unknown)"
    unfolding chain overall_status_of_def by (rule refl)
  show ?thesis
    using first unfolding pos by simp
qed

theorem overall_status_priority_witness:
  "overall_status (status_handler 10000000 (Some [row_S5, row_S6]) None) = Unknown \<and>
   overall_status (status_handler 10000000 (Some [row_S6]) None) = Paused"
  using overall_status_priority [of 10000000 "Some [row_S5, row_S6]" None]
    overall_status_priority [of 10000000 "Some [row_S6]" None]
  by (simp add: summary_S5_S6 summary_S6)

end
